theory Spec2Isabelle
  imports Main "HOL-Library.Word" "HOL-Library.Multiset" "HOL-Library.Log_Nat"
    "HOL-Library.While_Combinator"
begin

unbundle bit_operations_syntax

section \<open>The min-max heap of mmheap.h\<close>

text \<open>
  The heap lives in a caller-owned C++ array \<open>DataType* heap_array\<close> with a separate
  \<open>count\<close> (occupied slots) and \<open>max_size\<close> (allocated slots).  The array is a list
  whose length is the allocation; \<open>DataType\<close> is any linearly ordered type.  Indices
  are \<open>size_t\<close>; they are modelled as natural numbers.  The two places where the
  64-bit width of \<open>size_t\<close> is visible are written out: \<open>i - 1\<close> in \<open>parent\<close>
  wraps at \<open>i = 0\<close>, and \<open>++i\<close> in \<open>min_level\<close> feeds a 64-bit word to
  \<open>log_2\<close>.  The products \<open>2*i + 1\<close> and \<open>2*i + 2\<close> are only formed for indices
  \<open>i\<close> inside the array or one past a child inside the array, where they are below
  \<open>2 ^ 64\<close> for every array that fits an address space.

  Exceptions are values of type \<open>error\<close>; an operation that mutates the array or the
  count returns the new array and the new count.  The source's \<open>count\<close> is written
  \<open>cnt\<close> and its \<open>size\<close> is written \<open>sz\<close>, the two names being constants of
  the library.
\<close>

subsection \<open>Namespace \<open>_mmheap\<close>: index arithmetic\<close>

definition parent :: "nat \<Rightarrow> nat" where
  "parent i = (if i = 0 then (2 ^ 64 - 1) div 2 else (i - 1) div 2)"

definition has_parent :: "nat \<Rightarrow> bool" where
  "has_parent i = (i > 0)"

definition left :: "nat \<Rightarrow> nat" where
  "left i = 2 * i + 1"

definition right :: "nat \<Rightarrow> nat" where
  "right i = 2 * i + 2"

definition gparent :: "nat \<Rightarrow> nat" where
  "gparent i = parent (parent i)"

definition has_gparent :: "nat \<Rightarrow> bool" where
  "has_gparent i = (i > 2)"

definition child :: "nat \<Rightarrow> nat \<Rightarrow> bool" where
  "child i c = (c = left i \<or> c = right i)"

text \<open>The de Bruijn table and the bit-trick \<open>log_2\<close> on \<open>uint64_t\<close>.\<close>

definition tab64 :: "64 word list" where
  "tab64 = [63,  0, 58,  1, 59, 47, 53,  2,
            60, 39, 48, 27, 54, 33, 42,  3,
            61, 51, 37, 40, 49, 18, 28, 20,
            55, 30, 34, 11, 43, 14, 22,  4,
            62, 57, 46, 52, 38, 26, 32, 41,
            50, 36, 17, 19, 29, 10, 13, 21,
            56, 45, 25, 31, 35, 16,  9, 12,
            44, 24, 15,  8, 23,  7,  6,  5]"

definition log_2 :: "64 word \<Rightarrow> 64 word" where
  "log_2 i0 =
     (let i1 = i0 OR drop_bit 1 i0;
          i2 = i1 OR drop_bit 2 i1;
          i3 = i2 OR drop_bit 4 i2;
          i4 = i3 OR drop_bit 8 i3;
          i5 = i4 OR drop_bit 16 i4;
          i6 = i5 OR drop_bit 32 i5
      in tab64 ! unat (drop_bit 58 ((i6 - drop_bit 1 i6) * 0x07EDD5E59A4E28C2)))"

text \<open>\<open>i > 0 ? log_2(++i) % 2 == 0 : true\<close>; the increment is taken in 64 bits.\<close>

definition min_level :: "nat \<Rightarrow> bool" where
  "min_level i = (if i > 0 then log_2 (word_of_nat (i + 1)) mod 2 = 0 else True)"

subsection \<open>Extremal child and grandchild lookups\<close>

definition min_child :: "'a::linorder list \<Rightarrow> nat \<Rightarrow> nat \<Rightarrow> bool \<times> nat" where
  "min_child heap_array i right_index =
     (if left i \<le> right_index then
        (let m = left i;
             m = (if right i \<le> right_index \<and> heap_array ! right i < heap_array ! m
                  then right i else m)
         in (True, m))
      else (False, 0))"

definition min_gchild :: "'a::linorder list \<Rightarrow> nat \<Rightarrow> nat \<Rightarrow> bool \<times> nat" where
  "min_gchild heap_array i right_index =
     (let l = left i; r = right i in
      if left l \<le> right_index then
        (let m = left l;
             m = (if right l \<le> right_index \<and> heap_array ! right l < heap_array ! m
                  then right l else m);
             m = (if left r \<le> right_index \<and> heap_array ! left r < heap_array ! m
                  then left r else m);
             m = (if right r \<le> right_index \<and> heap_array ! right r < heap_array ! m
                  then right r else m)
         in (True, m))
      else (False, 0))"

definition min_child_or_gchild :: "'a::linorder list \<Rightarrow> nat \<Rightarrow> nat \<Rightarrow> bool \<times> nat" where
  "min_child_or_gchild heap_array i right_index =
     (let m = min_child heap_array i right_index in
      if fst m then
        (let gm = min_gchild heap_array i right_index in
         (fst m, if fst gm \<and> heap_array ! snd gm < heap_array ! snd m then snd gm else snd m))
      else m)"

definition max_child :: "'a::linorder list \<Rightarrow> nat \<Rightarrow> nat \<Rightarrow> bool \<times> nat" where
  "max_child heap_array i right_index =
     (if left i \<le> right_index then
        (let m = left i;
             m = (if right i \<le> right_index \<and> heap_array ! m < heap_array ! right i
                  then right i else m)
         in (True, m))
      else (False, 0))"

definition max_gchild :: "'a::linorder list \<Rightarrow> nat \<Rightarrow> nat \<Rightarrow> bool \<times> nat" where
  "max_gchild heap_array i right_index =
     (let l = left i; r = right i in
      if left l \<le> right_index then
        (let m = left l;
             m = (if right l \<le> right_index \<and> heap_array ! m < heap_array ! right l
                  then right l else m);
             m = (if left r \<le> right_index \<and> heap_array ! m < heap_array ! left r
                  then left r else m);
             m = (if right r \<le> right_index \<and> heap_array ! m < heap_array ! right r
                  then right r else m)
         in (True, m))
      else (False, 0))"

definition max_child_or_gchild :: "'a::linorder list \<Rightarrow> nat \<Rightarrow> nat \<Rightarrow> bool \<times> nat" where
  "max_child_or_gchild heap_array i right_index =
     (let m = max_child heap_array i right_index in
      if fst m then
        (let gm = max_gchild heap_array i right_index in
         (fst m, if fst gm \<and> heap_array ! snd m < heap_array ! snd gm then snd gm else snd m))
      else m)"

subsection \<open>Repair primitives\<close>

text \<open>\<open>std::swap(heap_array[i], heap_array[j])\<close>.\<close>

definition swap :: "'a list \<Rightarrow> nat \<Rightarrow> nat \<Rightarrow> 'a list" where
  "swap heap_array i j = heap_array[i := heap_array ! j, j := heap_array ! i]"

lemma length_swap [simp]: "length (swap a i j) = length a"
  by (simp add: swap_def)

lemma min_cg_range:
  assumes "left s \<le> r" and "\<not> child s (snd (min_child_or_gchild a s r))"
  shows "s < snd (min_child_or_gchild a s r) \<and> snd (min_child_or_gchild a s r) \<le> r"
  using assms
  by (auto simp: min_child_or_gchild_def min_child_def min_gchild_def child_def left_def
      right_def Let_def split: if_splits)

lemma max_cg_range:
  assumes "left s \<le> r" and "\<not> child s (snd (max_child_or_gchild a s r))"
  shows "s < snd (max_child_or_gchild a s r) \<and> snd (max_child_or_gchild a s r) \<le> r"
  using assms
  by (auto simp: max_child_or_gchild_def max_child_def max_gchild_def child_def left_def
      right_def Let_def split: if_splits)

text \<open>
  The loop \<open>while(sift_more && left(sift_index) <= right_index)\<close>: an iteration that
  leaves \<open>sift_more\<close> false returns the array, the one that sets it true continues from
  the grandchild \<open>m\<close>.
\<close>

function sift_down_min :: "'a::linorder list \<Rightarrow> nat \<Rightarrow> nat \<Rightarrow> 'a list" where
  "sift_down_min heap_array sift_index right_index =
     (if left sift_index \<le> right_index then
        (let m = snd (min_child_or_gchild heap_array sift_index right_index) in
         if child sift_index m then
           (if heap_array ! m < heap_array ! sift_index
            then swap heap_array m sift_index else heap_array)
         else
           (if heap_array ! m < heap_array ! sift_index then
              (let a1 = swap heap_array m sift_index;
                   a2 = (if a1 ! parent m < a1 ! m then swap a1 m (parent m) else a1)
               in sift_down_min a2 m right_index)
            else heap_array))
      else heap_array)"
  by pat_completeness auto
termination
  by (relation "measure (\<lambda>(a, s, r). r - s)") (use min_cg_range in \<open>auto, fastforce+\<close>)

function sift_down_max :: "'a::linorder list \<Rightarrow> nat \<Rightarrow> nat \<Rightarrow> 'a list" where
  "sift_down_max heap_array sift_index right_index =
     (if left sift_index \<le> right_index then
        (let m = snd (max_child_or_gchild heap_array sift_index right_index) in
         if child sift_index m then
           (if heap_array ! sift_index < heap_array ! m
            then swap heap_array m sift_index else heap_array)
         else
           (if heap_array ! sift_index < heap_array ! m then
              (let a1 = swap heap_array m sift_index;
                   a2 = (if a1 ! m < a1 ! parent m then swap a1 m (parent m) else a1)
               in sift_down_max a2 m right_index)
            else heap_array))
      else heap_array)"
  by pat_completeness auto
termination
  by (relation "measure (\<lambda>(a, s, r). r - s)") (use max_cg_range in \<open>auto, fastforce+\<close>)

definition sift_down :: "'a::linorder list \<Rightarrow> nat \<Rightarrow> nat \<Rightarrow> 'a list" where
  "sift_down heap_array sift_index right_index =
     (if min_level sift_index then sift_down_min heap_array sift_index right_index
      else sift_down_max heap_array sift_index right_index)"

lemma gparent_less: "has_gparent b \<Longrightarrow> gparent b < b"
  by (auto simp: has_gparent_def gparent_def parent_def)

text \<open>The loop \<open>while(!finished && has_gparent(bubble_index))\<close>.\<close>

function bubble_up_min :: "'a::linorder list \<Rightarrow> nat \<Rightarrow> 'a list" where
  "bubble_up_min heap_array bubble_index =
     (if has_gparent bubble_index then
        (if heap_array ! bubble_index < heap_array ! gparent bubble_index
         then bubble_up_min (swap heap_array bubble_index (gparent bubble_index))
                (gparent bubble_index)
         else heap_array)
      else heap_array)"
  by pat_completeness auto
termination
  by (relation "measure (\<lambda>(a, b). b)") (auto simp: gparent_less)

function bubble_up_max :: "'a::linorder list \<Rightarrow> nat \<Rightarrow> 'a list" where
  "bubble_up_max heap_array bubble_index =
     (if has_gparent bubble_index then
        (if heap_array ! gparent bubble_index < heap_array ! bubble_index
         then bubble_up_max (swap heap_array bubble_index (gparent bubble_index))
                (gparent bubble_index)
         else heap_array)
      else heap_array)"
  by pat_completeness auto
termination
  by (relation "measure (\<lambda>(a, b). b)") (auto simp: gparent_less)

definition bubble_up :: "'a::linorder list \<Rightarrow> nat \<Rightarrow> 'a list" where
  "bubble_up heap_array bubble_index =
     (if min_level bubble_index then
        (if has_parent bubble_index
            \<and> heap_array ! parent bubble_index < heap_array ! bubble_index
         then bubble_up_max (swap heap_array bubble_index (parent bubble_index))
                (parent bubble_index)
         else bubble_up_min heap_array bubble_index)
      else
        (if has_parent bubble_index
            \<and> heap_array ! bubble_index < heap_array ! parent bubble_index
         then bubble_up_min (swap heap_array bubble_index (parent bubble_index))
                (parent bubble_index)
         else bubble_up_max heap_array bubble_index))"

subsection \<open>Namespace \<open>mmheap\<close>: the public operations\<close>

text \<open>
  \<open>Heap_full\<close> and \<open>Heap_empty\<close> are the two uses of \<open>std::runtime_error\<close>,
  \<open>Index_beyond_end\<close> is the \<open>std::range_error\<close>.
\<close>

datatype error = Heap_full | Heap_empty | Index_beyond_end

text \<open>
  \<open>for(size_t current = parent(size-1); !finished; --current)\<close>: the body runs for
  \<open>current\<close>, \<open>current - 1\<close>, ..., \<open>0\<close> and the iteration at \<open>0\<close> is the last one.
\<close>

fun make_heap_loop :: "'a::linorder list \<Rightarrow> nat \<Rightarrow> nat \<Rightarrow> 'a list" where
  "make_heap_loop heap_array 0 right_index = sift_down heap_array 0 right_index"
| "make_heap_loop heap_array (Suc current) right_index =
     make_heap_loop (sift_down heap_array (Suc current) right_index) current right_index"

definition make_heap :: "'a::linorder list \<Rightarrow> nat \<Rightarrow> 'a list" where
  "make_heap heap_array sz =
     (if sz > 1 then make_heap_loop heap_array (parent (sz - 1)) (sz - 1)
      else heap_array)"

definition heap_insert ::
  "'a::linorder \<Rightarrow> 'a list \<Rightarrow> nat \<Rightarrow> nat \<Rightarrow> error + 'a list \<times> nat" where
  "heap_insert value heap_array cnt max_size =
     (if cnt < max_size then
        (let a1 = heap_array[cnt := value]; cnt1 = cnt + 1
         in Inr (bubble_up a1 (cnt1 - 1), cnt1))
      else Inl Heap_full)"

definition heap_max :: "'a::linorder list \<Rightarrow> nat \<Rightarrow> error + 'a" where
  "heap_max heap_array cnt =
     (if cnt < 1 then Inl Heap_empty
      else (let m = max_child heap_array 0 (cnt - 1)
            in Inr (if fst m then heap_array ! snd m else heap_array ! 0)))"

definition heap_min :: "'a::linorder list \<Rightarrow> nat \<Rightarrow> error + 'a" where
  "heap_min heap_array cnt =
     (if cnt < 1 then Inl Heap_empty else Inr (heap_array ! 0))"

text \<open>
  \<open>dflt\<close> stands for the value-initialised \<open>DataType{}\<close>.  The result is the returned
  pair, the array and the count.
\<close>

definition heap_insert_circular ::
  "'a \<Rightarrow> 'a::linorder \<Rightarrow> 'a list \<Rightarrow> nat \<Rightarrow> nat \<Rightarrow> error + (bool \<times> 'a) \<times> 'a list \<times> nat" where
  "heap_insert_circular dflt value heap_array cnt max_size =
     (let max_value = dflt; overflowed = (cnt = max_size) in
      if \<not> overflowed then
        (case heap_insert value heap_array cnt max_size of
           Inl e \<Rightarrow> Inl e
         | Inr (a', cnt') \<Rightarrow> Inr ((overflowed, max_value), a', cnt'))
      else
        (let m = (if max_size > 1 then snd (max_child heap_array 0 (max_size - 1)) else 0);
             max_value = heap_array ! m
         in if value < max_value then
              (let a1 = heap_array[m := value];
                   a2 = (if max_size > 1 then
                           (let a3 = (if value < a1 ! 0 then swap a1 0 m else a1)
                            in sift_down a3 m (max_size - 1))
                         else a1)
               in Inr ((overflowed, max_value), a2, cnt))
            else Inr ((overflowed, value), heap_array, cnt)))"

text \<open>
  \<open>new_value\<close> is a \<open>const DataType&\<close>; \<open>heap_remove_at_index\<close> passes a reference to
  \<open>heap_array[count-1]\<close>.  It is read for the store and for the two comparisons that
  precede every swap, and the store itself can only write that slot with its own value,
  so the reference reads the caller's value each time.
\<close>

definition heap_replace_at_index ::
  "'a::linorder \<Rightarrow> nat \<Rightarrow> 'a list \<Rightarrow> nat \<Rightarrow> error + 'a \<times> 'a list" where
  "heap_replace_at_index new_value index heap_array cnt =
     (if cnt = 0 then Inl Heap_empty
      else if index > cnt then Inl Index_beyond_end
      else
        (let old_value = heap_array ! index;
             a1 = heap_array[index := new_value]
         in Inr (old_value,
              (if min_level index then
                 (if new_value < old_value then bubble_up_min a1 index
                  else
                    (let a2 = (if has_parent index \<and> a1 ! parent index < new_value
                               then bubble_up a1 index else a1)
                     in sift_down a2 index (cnt - 1)))
               else
                 (if old_value < new_value then bubble_up_max a1 index
                  else
                    (let a2 = (if has_parent index \<and> new_value < a1 ! parent index
                               then bubble_up a1 index else a1)
                     in sift_down a2 index (cnt - 1)))))))"

definition heap_remove_at_index ::
  "nat \<Rightarrow> 'a::linorder list \<Rightarrow> nat \<Rightarrow> error + 'a \<times> 'a list \<times> nat" where
  "heap_remove_at_index index heap_array cnt =
     (if cnt = 0 then Inl Heap_empty
      else if index > cnt then Inl Index_beyond_end
      else
        (case heap_replace_at_index (heap_array ! (cnt - 1)) index heap_array cnt of
           Inl e \<Rightarrow> Inl e
         | Inr (old_value, a') \<Rightarrow> Inr (old_value, a', cnt - 1)))"

definition heap_remove_min :: "'a::linorder list \<Rightarrow> nat \<Rightarrow> error + 'a \<times> 'a list \<times> nat" where
  "heap_remove_min heap_array cnt =
     (if cnt = 0 then Inl Heap_empty
      else
        (let value = heap_array ! 0;
             a1 = swap heap_array 0 (cnt - 1);
             cnt1 = cnt - 1;
             a2 = (if cnt1 > 0 then sift_down a1 0 (cnt1 - 1) else a1)
         in Inr (value, a2, cnt1)))"

definition heap_remove_max :: "'a::linorder list \<Rightarrow> nat \<Rightarrow> error + 'a \<times> 'a list \<times> nat" where
  "heap_remove_max heap_array cnt =
     (if cnt = 0 then Inl Heap_empty
      else
        (let m = max_child heap_array 0 (cnt - 1);
             value = (if fst m then heap_array ! snd m else heap_array ! 0);
             mi = (if fst m then snd m else 0)
         in case heap_remove_at_index mi heap_array cnt of
              Inl e \<Rightarrow> Inl e
            | Inr (_, a', cnt') \<Rightarrow> Inr (value, a', cnt')))"

text \<open>The loop \<open>while(result && has_parent(i))\<close> of the validator, with \<open>--i\<close> at its end.\<close>

function is_heap_loop :: "'a::linorder list \<Rightarrow> nat \<Rightarrow> nat \<Rightarrow> bool \<Rightarrow> bool" where
  "is_heap_loop array cnt i result =
     (if result \<and> has_parent i then
        (let sub_root = parent i;
             value = array ! sub_root;
             result1 =
               (if min_level sub_root then
                  (let min_value = min_child_or_gchild array sub_root (cnt - 1)
                   in result \<and> (\<not> fst min_value \<or> value < array ! snd min_value
                                  \<or> value = array ! snd min_value))
                else
                  (let max_value = max_child_or_gchild array sub_root (cnt - 1)
                   in result \<and> (\<not> fst max_value \<or> array ! snd max_value < value
                                  \<or> array ! snd max_value = value)))
         in is_heap_loop array cnt (i - 1) result1)
      else result)"
  by pat_completeness auto
termination
  by (relation "measure (\<lambda>(a, c, i, r). i)") (auto simp: has_parent_def)

definition is_heap :: "'a::linorder list \<Rightarrow> nat \<Rightarrow> bool" where
  "is_heap array cnt =
     (if cnt > 1 then is_heap_loop array cnt (cnt - 1) True else True)"

section \<open>The integer logarithm and the level of an index\<close>

text \<open>\<open>flog2 n\<close> is the position of the highest set bit of \<open>n\<close>, that is \<open>\<lfloor>log\<^sub>2 n\<rfloor>\<close>.\<close>

fun flog2 :: "nat \<Rightarrow> nat" where
  "flog2 n = (if n < 2 then 0 else Suc (flog2 (n div 2)))"

declare flog2.simps [simp del]

lemma flog2_bounds: "0 < n \<Longrightarrow> 2 ^ flog2 n \<le> n \<and> n < 2 ^ Suc (flog2 n)"
proof (induction n rule: flog2.induct)
  case (1 n)
  show ?case
  proof (cases "n < 2")
    case True
    with "1.prems" show ?thesis by (simp add: flog2.simps [of n])
  next
    case False
    then have "0 < n div 2" by simp
    from "1.IH" [OF False this] False show ?thesis
      by (simp add: flog2.simps [of n]) linarith
  qed
qed

lemma flog2_log: "0 < n \<Longrightarrow> nat \<lfloor>log 2 (real n)\<rfloor> = flog2 n"
  using floor_log_nat_eq_if [of 2 "flog2 n" n] flog2_bounds [of n] by simp

lemma flog2_unique: "2 ^ k \<le> n \<Longrightarrow> n < 2 ^ Suc k \<Longrightarrow> flog2 n = k"
proof -
  assume a: "2 ^ k \<le> n" "n < 2 ^ Suc k"
  then have "0 < n" by (metis less_le_trans zero_less_numeral zero_less_power)
  from flog2_bounds [OF this] a have "2 ^ k < (2::nat) ^ Suc (flog2 n)" "2 ^ flog2 n < (2::nat) ^ Suc k"
    by linarith+
  then have "k < Suc (flog2 n)" "flog2 n < Suc k"
    by (simp_all only: power_strict_increasing_iff [of "2::nat"] one_less_numeral_iff semiring_norm)
  then show ?thesis by simp
qed

lemma bit_nat_le: "bit (m::nat) i \<Longrightarrow> 2 ^ i \<le> m"
  by (rule ccontr) (simp add: bit_iff_odd not_le)

lemma bit_flog2: "0 < m \<Longrightarrow> bit (m::nat) (flog2 m)"
proof -
  assume "0 < m"
  from flog2_bounds [OF this] have "m div 2 ^ flog2 m = 1"
    by (intro div_nat_eqI) simp_all
  then show ?thesis by (simp add: bit_iff_odd)
qed

lemma highest_bit:
  assumes "0 < m"
  shows "(\<exists>i\<ge>j. bit (m::nat) i) \<longleftrightarrow> j \<le> flog2 m"
proof
  assume "\<exists>i\<ge>j. bit m i"
  then obtain i where i: "j \<le> i" "bit m i" by blast
  from bit_nat_le [OF i(2)] flog2_bounds [OF assms] have "2 ^ i < (2::nat) ^ Suc (flog2 m)"
    by linarith
  then have "i < Suc (flog2 m)"
    by (simp only: power_strict_increasing_iff [of "2::nat"] one_less_numeral_iff semiring_norm)
  with i show "j \<le> flog2 m" by simp
next
  assume "j \<le> flog2 m"
  with bit_flog2 [OF assms] show "\<exists>i\<ge>j. bit m i" by blast
qed

lemma smear_step:
  fixes x n :: "64 word"
  assumes "\<forall>j. bit x j \<longleftrightarrow> (\<exists>d < s. bit n (j + d))"
  shows "\<forall>j. bit (x OR drop_bit s x) j \<longleftrightarrow> (\<exists>d<2 * s. bit n (j + d))"
proof
  fix j
  have "(\<exists>d<2 * s. bit n (j + d)) \<longleftrightarrow> (\<exists>d < s. bit n (j + d)) \<or> (\<exists>d < s. bit n (s + j + d))"
  proof
    assume "\<exists>d<2 * s. bit n (j + d)"
    then obtain d where d: "d < 2 * s" "bit n (j + d)" by blast
    show "(\<exists>d < s. bit n (j + d)) \<or> (\<exists>d < s. bit n (s + j + d))"
    proof (cases "d < s")
      case True
      with d show ?thesis by blast
    next
      case False
      with d have "d - s < s" "s + j + (d - s) = j + d" by simp_all
      with d show ?thesis by metis
    qed
  next
    assume "(\<exists>d < s. bit n (j + d)) \<or> (\<exists>d < s. bit n (s + j + d))"
    then show "\<exists>d<2 * s. bit n (j + d)"
    proof
      assume "\<exists>d < s. bit n (j + d)"
      then obtain d where "d < s" "bit n (j + d)" by blast
      then have "d < 2 * s \<and> bit n (j + d)" by simp
      then show ?thesis by blast
    next
      assume "\<exists>d < s. bit n (s + j + d)"
      then obtain d where "d < s" "bit n (s + j + d)" by blast
      then have "s + d < 2 * s \<and> bit n (j + (s + d))" by (simp add: ac_simps)
      then show ?thesis by blast
    qed
  qed
  then show "bit (x OR drop_bit s x) j \<longleftrightarrow> (\<exists>d<2 * s. bit n (j + d))"
    using assms by (simp add: bit_or_iff bit_drop_bit_eq)
qed

text \<open>The six shift-and-or steps of \<open>log_2\<close> set every bit below the highest set bit.\<close>

definition smear :: "64 word \<Rightarrow> 64 word" where
  "smear i0 =
     (let i1 = i0 OR drop_bit 1 i0;
          i2 = i1 OR drop_bit 2 i1;
          i3 = i2 OR drop_bit 4 i2;
          i4 = i3 OR drop_bit 8 i3;
          i5 = i4 OR drop_bit 16 i4
      in i5 OR drop_bit 32 i5)"

lemma bit_smear: "bit (smear n) j \<longleftrightarrow> (\<exists>d<64. bit n (j + d))"
proof -
  have s0: "\<forall>j. bit n j \<longleftrightarrow> (\<exists>d<1. bit n (j + d))" by simp
  note s1 = smear_step [OF s0]
  note s2 = smear_step [OF s1 [simplified]]
  note s3 = smear_step [OF s2 [simplified]]
  note s4 = smear_step [OF s3 [simplified]]
  note s5 = smear_step [OF s4 [simplified]]
  note s6 = smear_step [OF s5 [simplified]]
  from s6 show ?thesis by (simp add: smear_def Let_def)
qed

lemma smear_mask:
  fixes n :: "64 word"
  assumes "n \<noteq> 0"
  shows "smear n = mask (Suc (flog2 (unat n)))"
proof (rule bit_word_eqI)
  fix j
  assume j: "j < LENGTH(64)"
  from assms have pos: "0 < unat n" by (simp add: unat_gt_0)
  have k64: "flog2 (unat n) < 64"
  proof -
    have "unat n < 2 ^ 64" using unsigned_less [of n] by simp
    with flog2_bounds [OF pos] have "2 ^ flog2 (unat n) < (2::nat) ^ 64" by linarith
    then show ?thesis
      by (simp only: power_strict_increasing_iff [of "2::nat"] one_less_numeral_iff semiring_norm)
  qed
  have "(\<exists>d<64. bit n (j + d)) \<longleftrightarrow> (\<exists>i\<ge>j. bit (unat n) i)"
  proof
    assume "\<exists>d<64. bit n (j + d)"
    then obtain d where "bit n (j + d)" by blast
    then have "bit (unat n) (j + d)" by (simp add: bit_unsigned_iff)
    then show "\<exists>i\<ge>j. bit (unat n) i" by (metis le_add1)
  next
    assume "\<exists>i\<ge>j. bit (unat n) i"
    then obtain i where i: "j \<le> i" "bit (unat n) i" by blast
    then have b: "bit n i" by (simp add: bit_unsigned_iff)
    then have "i < 64" using bit_imp_le_length [OF b] by simp
    with i b have "i - j < 64 \<and> bit n (j + (i - j))" by simp
    then show "\<exists>d<64. bit n (j + d)" by blast
  qed
  also have "\<dots> \<longleftrightarrow> j \<le> flog2 (unat n)" by (rule highest_bit [OF pos])
  finally show "bit (smear n) j \<longleftrightarrow> bit (mask (Suc (flog2 (unat n))) :: 64 word) j"
    using j by (simp add: bit_smear bit_mask_iff less_Suc_eq_le)
qed

lemma mask_diff:
  assumes "k < 64"
  shows "(mask (Suc k) :: 64 word) - drop_bit 1 (mask (Suc k)) = 2 ^ k"
proof -
  have "drop_bit 1 (mask (Suc k) :: 64 word) = mask k"
    using assms by (intro bit_word_eqI) (auto simp: bit_simps)
  then show ?thesis by (simp add: mask_eq_exp_minus_1)
qed

lemma tab_all:
  "\<forall>k \<in> set [0..<64].
     tab64 ! unat (drop_bit 58 ((2::64 word) ^ k * 0x07EDD5E59A4E28C2)) = word_of_nat k"
  by code_simp

lemma log_2_flog2:
  fixes n :: "64 word"
  assumes "n \<noteq> 0"
  shows "log_2 n = word_of_nat (flog2 (unat n))"
proof -
  from assms have pos: "0 < unat n" by (simp add: unat_gt_0)
  have k64: "flog2 (unat n) < 64"
  proof -
    have "unat n < 2 ^ 64" using unsigned_less [of n] by simp
    with flog2_bounds [OF pos] have "2 ^ flog2 (unat n) < (2::nat) ^ 64" by linarith
    then show ?thesis
      by (simp only: power_strict_increasing_iff [of "2::nat"] one_less_numeral_iff semiring_norm)
  qed
  have "log_2 n = tab64 ! unat (drop_bit 58 ((smear n - drop_bit 1 (smear n)) * 0x07EDD5E59A4E28C2))"
    by (simp only: log_2_def smear_def Let_def)
  also have "\<dots> = tab64 ! unat (drop_bit 58 ((2::64 word) ^ flog2 (unat n) * 0x07EDD5E59A4E28C2))"
    by (simp only: smear_mask [OF assms] mask_diff [OF k64])
  also have "\<dots> = word_of_nat (flog2 (unat n))"
    using tab_all k64 by simp
  finally show ?thesis .
qed

lemma min_level_flog2:
  assumes "i + 1 < 2 ^ 64"
  shows "min_level i \<longleftrightarrow> even (flog2 (i + 1))"
proof (cases "i = 0")
  case True
  then show ?thesis by (simp add: min_level_def flog2.simps [of "Suc 0"])
next
  case False
  from assms have u: "unat (word_of_nat (i + 1) :: 64 word) = i + 1"
    by (intro of_nat_inverse [OF refl]) simp
  then have nz: "(word_of_nat (i + 1) :: 64 word) \<noteq> 0"
    by (metis add_is_0 unat_0 zero_neq_one)
  have k64: "flog2 (i + 1) < 64"
  proof -
    from flog2_bounds [of "i + 1"] assms have "2 ^ flog2 (i + 1) < (2::nat) ^ 64" by simp
    then show ?thesis
      by (simp only: power_strict_increasing_iff [of "2::nat"] one_less_numeral_iff semiring_norm)
  qed
  have "(word_of_nat (flog2 (i + 1)) :: 64 word) mod 2 = 0
      \<longleftrightarrow> even (word_of_nat (flog2 (i + 1)) :: 64 word)"
    by (simp add: even_iff_mod_2_eq_zero)
  then have "(word_of_nat (flog2 (i + 1)) :: 64 word) mod 2 = 0 \<longleftrightarrow> even (flog2 (i + 1))"
    by simp
  moreover have "log_2 (word_of_nat (i + 1)) = word_of_nat (flog2 (i + 1))"
    using log_2_flog2 [OF nz] by (simp only: u)
  moreover have "min_level i \<longleftrightarrow> log_2 (word_of_nat (i + 1)) mod 2 = 0"
    using False by (simp only: min_level_def) simp
  ultimately show ?thesis by (simp only:)
qed

section \<open>The implicit tree\<close>

definition lvl :: "nat \<Rightarrow> bool" where
  "lvl i = even (flog2 (i + 1))"

lemma min_level_lvl: "i + 1 < 2 ^ 64 \<Longrightarrow> min_level i = lvl i"
  by (simp add: min_level_flog2 lvl_def)

lemma lvl_0 [simp]: "lvl 0"
  by (simp add: lvl_def flog2.simps [of "Suc 0"])

lemma lvl_left [simp]: "lvl (left i) = (\<not> lvl i)"
proof -
  have "flog2 (left i + 1) = Suc (flog2 (i + 1))"
    by (subst flog2.simps) (simp add: left_def)
  then show ?thesis by (simp only: lvl_def even_Suc)
qed

lemma lvl_right [simp]: "lvl (right i) = (\<not> lvl i)"
proof -
  have "(right i + 1) div 2 = i + 1" by (simp add: right_def)
  then have "flog2 (right i + 1) = Suc (flog2 (i + 1))"
    by (subst flog2.simps) (simp add: right_def)
  then show ?thesis by (simp only: lvl_def even_Suc)
qed

lemma parent_left [simp]: "parent (left i) = i"
  by (simp add: parent_def left_def)

lemma parent_right [simp]: "parent (right i) = i"
  by (simp add: parent_def right_def)

lemma child_of_parent: "0 < j \<Longrightarrow> j = left (parent j) \<or> j = right (parent j)"
  by (simp add: parent_def left_def right_def) presburger

lemma parent_less: "0 < j \<Longrightarrow> parent j < j"
  by (simp add: parent_def) 

lemma lvl_parent: "0 < j \<Longrightarrow> lvl (parent j) = (\<not> lvl j)"
  using child_of_parent [of j] lvl_left [of "parent j"] lvl_right [of "parent j"] by metis

lemma left_neq_right [simp]: "left i \<noteq> right j" "right j \<noteq> left i"
  by (simp_all add: left_def right_def) presburger+

lemma left_inj [simp]: "left i = left j \<longleftrightarrow> i = j"
  by (simp add: left_def)

lemma right_inj [simp]: "right i = right j \<longleftrightarrow> i = j"
  by (simp add: right_def)

lemma left_pos [simp]: "0 < left i" "i < left i" "left i < right i" "i < right i" "0 < right i"
  by (simp_all add: left_def right_def)

inductive anc :: "nat \<Rightarrow> nat \<Rightarrow> bool" where
  anc_left: "anc i (left i)"
| anc_right: "anc i (right i)"
| anc_down_left: "anc i j \<Longrightarrow> anc i (left j)"
| anc_down_right: "anc i j \<Longrightarrow> anc i (right j)"

declare anc_left [simp] anc_right [simp]

lemma anc_less: "anc i j \<Longrightarrow> i < j"
  by (induction rule: anc.induct) (simp_all add: left_def right_def)

lemma anc_irrefl [simp]: "\<not> anc i i"
  using anc_less by blast

lemma anc_trans_aux: "anc j k \<Longrightarrow> anc i j \<Longrightarrow> anc i k"
  by (induction rule: anc.induct) (auto intro: anc.intros)

lemma anc_trans: "anc i j \<Longrightarrow> anc j k \<Longrightarrow> anc i k"
  by (rule anc_trans_aux)

lemma anc_parent: "0 < j \<Longrightarrow> anc (parent j) j"
  using child_of_parent [of j] anc_left [of "parent j"] anc_right [of "parent j"] by metis

lemma anc_up: "anc i j \<Longrightarrow> parent j = i \<or> anc i (parent j)"
  by (induction rule: anc.induct) simp_all

lemma anc_pos: "anc i j \<Longrightarrow> 0 < j"
  using anc_less by fastforce

lemma anc_parent_iff: "anc i j \<longleftrightarrow> 0 < j \<and> (parent j = i \<or> anc i (parent j))"
  using anc_up anc_pos anc_parent anc_trans by metis

lemma anc_top: "anc i j \<Longrightarrow> j = left i \<or> j = right i \<or> anc (left i) j \<or> anc (right i) j"
  by (induction rule: anc.induct) (auto intro: anc.intros)

lemma anc_left_iff: "anc i (left j) \<longleftrightarrow> i = j \<or> anc i j"
  using anc_up [of i "left j"] by (auto intro: anc.intros)

lemma anc_right_iff: "anc i (right j) \<longleftrightarrow> i = j \<or> anc i j"
  using anc_up [of i "right j"] by (auto intro: anc.intros)

lemma anc_comparable: "anc i k \<Longrightarrow> anc j k \<Longrightarrow> i = j \<or> anc i j \<or> anc j i"
proof (induction k arbitrary: rule: less_induct)
  case (less k)
  from less.prems have k: "0 < k" by (simp add: anc_pos)
  from less.prems anc_up have "parent k = i \<or> anc i (parent k)" "parent k = j \<or> anc j (parent k)"
    by blast+
  then show ?case
    using less.IH [OF parent_less [OF k]] by blast
qed

lemma anc_zero: "0 < j \<Longrightarrow> anc 0 j"
proof (induction j rule: less_induct)
  case (less j)
  show ?case
  proof (cases "parent j = 0")
    case True
    with anc_parent [OF less.prems] show ?thesis by simp
  next
    case False
    with less.IH [OF parent_less [OF less.prems]] anc_parent [OF less.prems] anc_trans
    show ?thesis by blast
  qed
qed

section \<open>One order for both kinds of level\<close>

text \<open>
  On a min level the heap compares with \<open><\<close>, on a max level with \<open>>\<close>.  \<open>lt mn\<close> and
  \<open>le mn\<close> are the strict and the weak comparison of a level whose \<open>min_level\<close> is
  \<open>mn\<close>.
\<close>

definition lt :: "bool \<Rightarrow> 'a::linorder \<Rightarrow> 'a \<Rightarrow> bool" where
  "lt mn x y = (if mn then x < y else y < x)"

definition le :: "bool \<Rightarrow> 'a::linorder \<Rightarrow> 'a \<Rightarrow> bool" where
  "le mn x y = (if mn then x \<le> y else y \<le> x)"

lemma xle_refl [simp]: "le mn x x"
  by (simp add: le_def)

lemma xlt_irrefl [simp]: "\<not> lt mn x x"
  by (simp add: lt_def)

lemma xnot_lt [simp]: "(\<not> lt mn x y) = le mn y x"
  by (auto simp: lt_def le_def)

lemma xlt_le_False: "lt mn x y \<Longrightarrow> le mn y x \<Longrightarrow> False"
  by (auto simp: lt_def le_def split: if_splits)

lemma xle_not_lt [simp]: "le mn x y \<Longrightarrow> lt mn y x = False"
  by (auto simp: lt_def le_def split: if_splits)

lemma xlt_imp_le: "lt mn x y \<Longrightarrow> le mn x y"
  by (auto simp: lt_def le_def)

lemma xle_trans: "le mn x y \<Longrightarrow> le mn y z \<Longrightarrow> le mn x z"
  by (auto simp: le_def)

lemma xlt_le_trans: "lt mn x y \<Longrightarrow> le mn y z \<Longrightarrow> lt mn x z"
  by (auto simp: lt_def le_def)

lemma xle_lt_trans: "le mn x y \<Longrightarrow> lt mn y z \<Longrightarrow> lt mn x z"
  by (auto simp: lt_def le_def)

lemma xle_flip [simp]: "le (\<not> mn) x y = le mn y x"
  by (simp add: le_def)

lemma xlt_flip [simp]: "lt (\<not> mn) x y = lt mn y x"
  by (simp add: lt_def)

lemma xle_total: "le mn x y \<or> le mn y x"
  by (auto simp: le_def)

lemma xle_antisym: "le mn x y \<Longrightarrow> le mn y x \<Longrightarrow> x = y"
  by (auto simp: le_def split: if_splits)

lemma xle_iff: "le mn x y \<longleftrightarrow> lt mn x y \<or> x = y"
  by (auto simp: le_def lt_def)

subsection \<open>The lookups, for either order\<close>

definition pick :: "bool \<Rightarrow> 'a::linorder list \<Rightarrow> nat \<Rightarrow> nat \<Rightarrow> nat \<Rightarrow> nat" where
  "pick mn a r m c = (if c \<le> r \<and> lt mn (a ! c) (a ! m) then c else m)"

definition x_child :: "bool \<Rightarrow> 'a::linorder list \<Rightarrow> nat \<Rightarrow> nat \<Rightarrow> bool \<times> nat" where
  "x_child mn a i r =
     (if left i \<le> r then (True, pick mn a r (left i) (right i)) else (False, 0))"

definition x_gchild :: "bool \<Rightarrow> 'a::linorder list \<Rightarrow> nat \<Rightarrow> nat \<Rightarrow> bool \<times> nat" where
  "x_gchild mn a i r =
     (if left (left i) \<le> r then
        (True, pick mn a r (pick mn a r (pick mn a r (left (left i)) (right (left i)))
                              (left (right i))) (right (right i)))
      else (False, 0))"

definition x_cg :: "bool \<Rightarrow> 'a::linorder list \<Rightarrow> nat \<Rightarrow> nat \<Rightarrow> bool \<times> nat" where
  "x_cg mn a i r =
     (if left i \<le> r then
        (True, if left (left i) \<le> r
                  \<and> lt mn (a ! snd (x_gchild mn a i r)) (a ! snd (x_child mn a i r))
               then snd (x_gchild mn a i r) else snd (x_child mn a i r))
      else (False, 0))"

lemma min_child_x: "min_child a i r = x_child True a i r"
  by (simp add: min_child_def x_child_def pick_def lt_def Let_def)

lemma max_child_x: "max_child a i r = x_child False a i r"
  by (simp add: max_child_def x_child_def pick_def lt_def Let_def)

lemma min_gchild_x: "min_gchild a i r = x_gchild True a i r"
  by (simp add: min_gchild_def x_gchild_def pick_def lt_def Let_def)

lemma max_gchild_x: "max_gchild a i r = x_gchild False a i r"
  by (simp add: max_gchild_def x_gchild_def pick_def lt_def Let_def)

lemma min_cg_x: "min_child_or_gchild a i r = x_cg True a i r"
  by (simp add: min_child_or_gchild_def x_cg_def min_child_x min_gchild_x Let_def)
     (auto simp: x_child_def x_gchild_def lt_def le_def)

lemma max_cg_x: "max_child_or_gchild a i r = x_cg False a i r"
  by (simp add: max_child_or_gchild_def x_cg_def max_child_x max_gchild_x Let_def)
     (auto simp: x_child_def x_gchild_def lt_def le_def)

text \<open>
  \<open>first_ext mn a cs r m\<close>: among the candidates \<open>cs\<close> inside the range, \<open>m\<close> holds an
  extremal value and is the one of least index that does.
\<close>

definition first_ext :: "bool \<Rightarrow> 'a::linorder list \<Rightarrow> nat list \<Rightarrow> nat \<Rightarrow> nat \<Rightarrow> bool" where
  "first_ext mn a cs r m =
     (m \<in> set cs \<and> m \<le> r \<and>
      (\<forall>c \<in> set cs. c \<le> r \<longrightarrow> le mn (a ! m) (a ! c) \<and> (a ! c = a ! m \<longrightarrow> m \<le> c)))"

definition gchildren :: "nat \<Rightarrow> nat list" where
  "gchildren i = [left (left i), right (left i), left (right i), right (right i)]"

lemma first_ext_single: "m \<le> r \<Longrightarrow> first_ext mn a [m] r m"
  by (simp add: first_ext_def)

lemma first_ext_pick:
  assumes "first_ext mn a cs r m" and "\<forall>x \<in> set cs. x < c"
  shows "first_ext mn a (cs @ [c]) r (pick mn a r m c)"
proof (cases "c \<le> r \<and> lt mn (a ! c) (a ! m)")
  case True
  have "le mn (a ! c) (a ! x) \<and> a ! x \<noteq> a ! c" if "x \<in> set cs" "x \<le> r" for x
  proof -
    from that assms(1) have "le mn (a ! m) (a ! x)" by (simp add: first_ext_def)
    with True have "lt mn (a ! c) (a ! x)" using xlt_le_trans by blast
    then show ?thesis using xlt_imp_le xlt_irrefl by metis
  qed
  with True show ?thesis
    unfolding first_ext_def pick_def by auto
next
  case False
  with assms show ?thesis
    unfolding first_ext_def pick_def by (auto intro: less_imp_le dest: xlt_le_False)
qed

lemma x_child_first:
  assumes "left i \<le> r"
  shows "first_ext mn a [left i, right i] r (snd (x_child mn a i r))"
  using first_ext_pick [OF first_ext_single [OF assms], of "right i" mn a] assms
  by (simp add: x_child_def)

lemma x_gchild_first:
  assumes "left (left i) \<le> r"
  shows "first_ext mn a (gchildren i) r (snd (x_gchild mn a i r))"
proof -
  note s1 = first_ext_single [OF assms, of mn a]
  have s2: "first_ext mn a [left (left i), right (left i)] r
      (pick mn a r (left (left i)) (right (left i)))"
    using first_ext_pick [OF s1, of "right (left i)"] by simp
  have s3: "first_ext mn a [left (left i), right (left i), left (right i)] r
      (pick mn a r (pick mn a r (left (left i)) (right (left i))) (left (right i)))"
    using first_ext_pick [OF s2, of "left (right i)"] by (simp add: left_def right_def)
  show ?thesis
    using first_ext_pick [OF s3, of "right (right i)"] assms
    by (simp add: x_gchild_def gchildren_def left_def right_def)
qed

lemma x_cg_cases:
  assumes "left s \<le> r"
  shows "snd (x_cg mn a s r) = snd (x_child mn a s r) \<or>
         (left (left s) \<le> r \<and> snd (x_cg mn a s r) = snd (x_gchild mn a s r) \<and>
          lt mn (a ! snd (x_gchild mn a s r)) (a ! snd (x_child mn a s r)))"
  using assms by (simp add: x_cg_def)

lemma gchildren_above: "left (left s) \<le> c" if "c \<in> set (gchildren s)"
  using that by (auto simp: gchildren_def left_def right_def)

lemma x_cg_least:
  assumes "left s \<le> r" and "c \<in> {left s, right s} \<union> set (gchildren s)" and "c \<le> r"
  shows "le mn (a ! snd (x_cg mn a s r)) (a ! c)"
proof -
  let ?ch = "snd (x_child mn a s r)" and ?gc = "snd (x_gchild mn a s r)"
  let ?m = "snd (x_cg mn a s r)"
  have ch: "le mn (a ! ?ch) (a ! c)" if "c \<in> {left s, right s}"
    using x_child_first [OF assms(1), of mn a] that assms(3) by (auto simp: first_ext_def)
  have gc: "le mn (a ! ?gc) (a ! c)" if "c \<in> set (gchildren s)"
  proof -
    from that assms(3) gchildren_above have "left (left s) \<le> r" using order_trans by blast
    from x_gchild_first [OF this, of mn a] that assms(3) show ?thesis
      by (auto simp: first_ext_def)
  qed
  have m_ch: "le mn (a ! ?m) (a ! ?ch)"
    using x_cg_cases [OF assms(1), of mn a] xlt_imp_le by fastforce
  have m_gc: "le mn (a ! ?m) (a ! ?gc)" if "left (left s) \<le> r"
    using that assms(1) by (auto simp: x_cg_def)
  show ?thesis
  proof (cases "c \<in> {left s, right s}")
    case True
    with ch m_ch show ?thesis using xle_trans by blast
  next
    case False
    with assms(2) have c: "c \<in> set (gchildren s)" by simp
    with assms(3) gchildren_above have "left (left s) \<le> r" using order_trans by blast
    with gc [OF c] m_gc show ?thesis using xle_trans by blast
  qed
qed

lemma x_cg_mem:
  assumes "left s \<le> r"
  shows "snd (x_cg mn a s r) \<le> r"
    and "child s (snd (x_cg mn a s r)) \<or>
         (left (left s) \<le> r \<and> snd (x_cg mn a s r) \<in> set (gchildren s))"
proof -
  from x_child_first [OF assms, of mn a]
  have ch: "snd (x_child mn a s r) \<le> r" "child s (snd (x_child mn a s r))"
    by (auto simp: first_ext_def child_def)
  have gc: "snd (x_gchild mn a s r) \<le> r \<and> snd (x_gchild mn a s r) \<in> set (gchildren s)"
    if "left (left s) \<le> r"
    using x_gchild_first [OF that, of mn a] by (simp add: first_ext_def)
  from x_cg_cases [OF assms, of mn a] ch gc show "snd (x_cg mn a s r) \<le> r" by metis
  from x_cg_cases [OF assms, of mn a] ch gc
  show "child s (snd (x_cg mn a s r)) \<or>
         (left (left s) \<le> r \<and> snd (x_cg mn a s r) \<in> set (gchildren s))" by metis
qed

lemma gchild_not_child: "c \<in> set (gchildren s) \<Longrightarrow> \<not> child s c"
  by (auto simp: gchildren_def child_def left_def right_def)

lemma x_cg_gchild:
  assumes "left s \<le> r" and "\<not> child s (snd (x_cg mn a s r))"
  shows "snd (x_cg mn a s r) \<in> set (gchildren s)" and "s < snd (x_cg mn a s r)"
proof -
  from x_cg_mem(2) [OF assms(1), of mn a] assms(2)
  show g: "snd (x_cg mn a s r) \<in> set (gchildren s)" by blast
  from gchildren_above [OF g] show "s < snd (x_cg mn a s r)" by (simp add: left_def)
qed

lemma x_cg_range:
  assumes "left s \<le> r" and "\<not> child s (snd (x_cg mn a s r))"
  shows "s < snd (x_cg mn a s r) \<and> snd (x_cg mn a s r) \<le> r"
  using x_cg_gchild(2) [OF assms] x_cg_mem(1) [OF assms(1)] by simp

subsection \<open>The repair loops, for either order\<close>

function sift :: "bool \<Rightarrow> 'a::linorder list \<Rightarrow> nat \<Rightarrow> nat \<Rightarrow> 'a list" where
  "sift mn a s r =
     (if left s \<le> r then
        (let m = snd (x_cg mn a s r) in
         if child s m then (if lt mn (a ! m) (a ! s) then swap a m s else a)
         else
           (if lt mn (a ! m) (a ! s) then
              (let a1 = swap a m s;
                   a2 = (if lt mn (a1 ! parent m) (a1 ! m) then swap a1 m (parent m) else a1)
               in sift mn a2 m r)
            else a))
      else a)"
  by pat_completeness auto
termination
  by (relation "measure (\<lambda>(mn, a, s, r). r - s)") (use x_cg_range in \<open>auto, fastforce+\<close>)

declare sift.simps [simp del]
declare sift_down_min.simps [simp del] sift_down_max.simps [simp del]
declare bubble_up_min.simps [simp del] bubble_up_max.simps [simp del]

function bubble :: "bool \<Rightarrow> 'a::linorder list \<Rightarrow> nat \<Rightarrow> 'a list" where
  "bubble mn a b =
     (if has_gparent b then
        (if lt mn (a ! b) (a ! gparent b) then bubble mn (swap a b (gparent b)) (gparent b)
         else a)
      else a)"
  by pat_completeness auto
termination
  by (relation "measure (\<lambda>(mn, a, b). b)") (auto simp: gparent_less)

declare bubble.simps [simp del]

lemma sift_down_min_sift: "sift_down_min a s r = sift True a s r"
proof (induction a s r rule: sift_down_min.induct)
  case (1 a s r)
  show ?case
    by (subst sift_down_min.simps, subst sift.simps)
       (use "1.IH" in \<open>simp add: min_cg_x lt_def Let_def\<close>)
qed

lemma sift_down_max_sift: "sift_down_max a s r = sift False a s r"
proof (induction a s r rule: sift_down_max.induct)
  case (1 a s r)
  show ?case
    by (subst sift_down_max.simps, subst sift.simps)
       (use "1.IH" in \<open>simp add: max_cg_x lt_def Let_def\<close>)
qed

lemma bubble_up_min_bubble: "bubble_up_min a b = bubble True a b"
proof (induction a b rule: bubble_up_min.induct)
  case (1 a b)
  show ?case
    by (subst bubble_up_min.simps, subst bubble.simps) (use "1.IH" in \<open>simp add: lt_def\<close>)
qed

lemma bubble_up_max_bubble: "bubble_up_max a b = bubble False a b"
proof (induction a b rule: bubble_up_max.induct)
  case (1 a b)
  show ?case
    by (subst bubble_up_max.simps, subst bubble.simps) (use "1.IH" in \<open>simp add: lt_def\<close>)
qed

section \<open>The heap order on subtrees\<close>

text \<open>
  \<open>below r i\<close> are the descendants of \<open>i\<close> up to the right index \<open>r\<close>, \<open>sub r i\<close> adds
  \<open>i\<close> itself.  \<open>heap_at a r i\<close>: the value at \<open>i\<close> is extremal, in the order of the level of
  \<open>i\<close>, among the values below it.
\<close>

definition below :: "nat \<Rightarrow> nat \<Rightarrow> nat set" where
  "below r i = {j. j \<le> r \<and> anc i j}"

definition sub :: "nat \<Rightarrow> nat \<Rightarrow> nat set" where
  "sub r i = {j. j \<le> r \<and> (j = i \<or> anc i j)}"

definition heap_at :: "'a::linorder list \<Rightarrow> nat \<Rightarrow> nat \<Rightarrow> bool" where
  "heap_at a r i = (\<forall>j \<in> below r i. le (lvl i) (a ! i) (a ! j))"

lemma sub_below: "sub r i = (if i \<le> r then insert i (below r i) else below r i)"
  by (auto simp: sub_def below_def)

lemma below_sub: "below r i \<subseteq> sub r i"
  by (auto simp: sub_def below_def)

lemma self_not_below [simp]: "i \<notin> below r i"
  by (simp add: below_def)

lemma sub_in_below: "anc i s \<Longrightarrow> sub r s \<subseteq> below r i"
  by (auto simp: sub_def below_def intro: anc_trans)

lemma below_mono: "anc i s \<Longrightarrow> below r s \<subseteq> below r i"
  by (auto simp: below_def intro: anc_trans)

lemma sub_disjoint:
  assumes "i \<noteq> s" "\<not> anc i s" "\<not> anc s i"
  shows "sub r s \<inter> sub r i = {}"
  using assms anc_comparable [of s _ i] by (auto simp: sub_def)

lemma below_empty: "r < left i \<Longrightarrow> below r i = {}"
  using anc_top [of i] anc_less [of "left i"] anc_less [of "right i"]
  by (fastforce simp: below_def left_def right_def)

lemma heap_at_cong:
  assumes "a' ! i = a ! i" and "\<forall>k \<in> below r i. a' ! k = a ! k"
  shows "heap_at a' r i = heap_at a r i"
  using assms by (simp add: heap_at_def)

subsection \<open>Rearrangements inside a set of indices\<close>

definition perm_on :: "nat set \<Rightarrow> 'a list \<Rightarrow> 'a list \<Rightarrow> bool" where
  "perm_on T a a' =
     (length a' = length a \<and> mset a' = mset a \<and> (\<forall>j. j \<notin> T \<longrightarrow> a' ! j = a ! j) \<and>
      (\<lambda>j. a' ! j) ` T = (\<lambda>j. a ! j) ` T)"

lemma perm_on_refl [simp]: "perm_on T a a"
  by (simp add: perm_on_def)

lemma perm_on_outside: "perm_on T a b \<Longrightarrow> j \<notin> T \<Longrightarrow> b ! j = a ! j"
  by (simp add: perm_on_def)

lemma perm_on_length: "perm_on T a b \<Longrightarrow> length b = length a"
  by (simp add: perm_on_def)

lemma perm_on_mset: "perm_on T a b \<Longrightarrow> mset b = mset a"
  by (simp add: perm_on_def)

lemma perm_on_trans: "perm_on T a b \<Longrightarrow> perm_on T b c \<Longrightarrow> perm_on T a c"
  by (simp add: perm_on_def)

lemma perm_on_image:
  assumes "perm_on T a b" and "T \<subseteq> U"
  shows "(\<lambda>j. b ! j) ` U = (\<lambda>j. a ! j) ` U"
proof -
  from assms(2) have U: "U = T \<union> (U - T)" by blast
  have "(\<lambda>j. b ! j) ` (U - T) = (\<lambda>j. a ! j) ` (U - T)"
    using assms(1) by (simp add: perm_on_def)
  moreover have "(\<lambda>j. b ! j) ` T = (\<lambda>j. a ! j) ` T"
    using assms(1) by (simp add: perm_on_def)
  ultimately show ?thesis
    by (subst (1 2) U) (simp only: image_Un)
qed

lemma perm_on_mono: "perm_on T a b \<Longrightarrow> T \<subseteq> U \<Longrightarrow> perm_on U a b"
  using perm_on_image [of T a b U] by (auto simp: perm_on_def)

lemma swap_nth:
  "i < length a \<Longrightarrow> j < length a \<Longrightarrow>
   swap a i j ! k = (if k = j then a ! i else if k = i then a ! j else a ! k)"
  by (simp add: swap_def nth_list_update)

lemma mset_swap' [simp]: "i < length a \<Longrightarrow> j < length a \<Longrightarrow> mset (swap a i j) = mset a"
  by (simp add: swap_def mset_swap)

lemma perm_on_swap:
  assumes "i \<in> T" "j \<in> T" "i < length a" "j < length a"
  shows "perm_on T a (swap a i j)"
proof -
  have "(\<lambda>k. swap a i j ! k) ` T = (\<lambda>k. a ! k) ` T"
  proof (intro equalityI subsetI)
    fix x assume "x \<in> (\<lambda>k. swap a i j ! k) ` T"
    then obtain k where "k \<in> T" "x = swap a i j ! k" by blast
    with assms show "x \<in> (\<lambda>k. a ! k) ` T" by (auto simp: swap_nth)
  next
    fix x assume "x \<in> (\<lambda>k. a ! k) ` T"
    then obtain k where k: "k \<in> T" "x = a ! k" by blast
    define k' where "k' = (if k = i then j else if k = j then i else k)"
    with k assms have "k' \<in> T" "x = swap a i j ! k'" by (auto simp: swap_nth)
    then show "x \<in> (\<lambda>k. swap a i j ! k) ` T" by blast
  qed
  with assms show ?thesis by (simp add: perm_on_def swap_nth)
qed

lemma heap_at_frame:
  assumes "perm_on T a a'" and "i \<notin> T" and "T \<subseteq> below r i \<or> T \<inter> below r i = {}"
    and "heap_at a r i"
  shows "heap_at a' r i"
proof -
  from assms(1,2) have i: "a' ! i = a ! i" by (simp add: perm_on_def)
  from assms(3) show ?thesis
  proof
    assume sub: "T \<subseteq> below r i"
    show ?thesis
      unfolding heap_at_def
    proof
      fix j assume "j \<in> below r i"
      then have "a' ! j \<in> (\<lambda>j. a ! j) ` below r i"
        using perm_on_image [OF assms(1) sub] by blast
      with assms(4) show "le (lvl i) (a' ! i) (a' ! j)" by (auto simp: heap_at_def i)
    qed
  next
    assume "T \<inter> below r i = {}"
    with assms(1) have "\<forall>k \<in> below r i. a' ! k = a ! k" by (auto simp: perm_on_def)
    with heap_at_cong [OF i this] assms(4) show ?thesis by simp
  qed
qed

text \<open>A node outside the subtree of \<open>s\<close> keeps its property when that subtree is rearranged.\<close>

lemma heap_at_outside:
  assumes "perm_on (sub r s) a a'" and "i \<notin> sub r s" and "i \<le> r" and "heap_at a r i"
  shows "heap_at a' r i"
proof (rule heap_at_frame [OF assms(1,2) _ assms(4)])
  show "sub r s \<subseteq> below r i \<or> sub r s \<inter> below r i = {}"
  proof (cases "anc i s")
    case True
    then show ?thesis by (simp add: sub_in_below)
  next
    case False
    from assms(2,3) have "i \<noteq> s" "\<not> anc s i" by (auto simp: sub_def)
    from sub_disjoint [OF this(1) False this(2), of r] below_sub [of r i]
    show ?thesis by blast
  qed
qed

lemma gchildren_anc: "g \<in> set (gchildren s) \<Longrightarrow> anc s g"
  by (auto simp: gchildren_def intro: anc.intros)

lemma gchildren_parent:
  "g \<in> set (gchildren s) \<Longrightarrow>
   parent (parent g) = s \<and> child s (parent g) \<and> 0 < g \<and> parent g < g \<and> s < parent g"
  by (auto simp: gchildren_def child_def)

lemma lvl_gchildren: "g \<in> set (gchildren s) \<Longrightarrow> lvl g = lvl s"
  by (auto simp: gchildren_def)

lemma lvl_child: "child s c \<Longrightarrow> lvl c = (\<not> lvl s)"
  by (auto simp: child_def)

lemma child_anc: "child s c \<Longrightarrow> anc s c"
  by (auto simp: child_def intro: anc.intros)

lemma anc_cases:
  assumes "anc s k"
  shows "child s k \<or> k \<in> set (gchildren s) \<or> (\<exists>g \<in> set (gchildren s). anc g k)"
proof -
  from anc_top [OF assms] consider "child s k" | "anc (left s) k" | "anc (right s) k"
    by (auto simp: child_def)
  then show ?thesis
  proof cases
    case 1
    then show ?thesis by simp
  next
    case 2
    from anc_top [OF this] show ?thesis by (auto simp: gchildren_def)
  next
    case 3
    from anc_top [OF this] show ?thesis by (auto simp: gchildren_def)
  qed
qed

text \<open>The lookup finds a least value of the whole subtree below \<open>s\<close>.\<close>

lemma x_cg_below:
  assumes "left s \<le> r" and "lvl s = mn" and "\<forall>i \<in> below r s. heap_at a r i"
    and "k \<in> below r s"
  shows "le mn (a ! snd (x_cg mn a s r)) (a ! k)"
proof -
  let ?m = "snd (x_cg mn a s r)"
  from assms(4) have k: "k \<le> r" "anc s k" by (simp_all add: below_def)
  from anc_cases [OF k(2)] show ?thesis
  proof (elim disjE bexE)
    assume "child s k"
    with k(1) show ?thesis by (intro x_cg_least [OF assms(1)]) (auto simp: child_def)
  next
    assume "k \<in> set (gchildren s)"
    with k(1) show ?thesis by (intro x_cg_least [OF assms(1)]) auto
  next
    fix g assume g: "g \<in> set (gchildren s)" "anc g k"
    with k(1) anc_less [OF g(2)] have gr: "g \<le> r" by simp
    with g(1) have 1: "le mn (a ! ?m) (a ! g)" by (intro x_cg_least [OF assms(1)]) auto
    from g(1) gr gchildren_anc have "g \<in> below r s" by (simp add: below_def)
    with assms(3) have "heap_at a r g" by blast
    with g k(1) have "le (lvl g) (a ! g) (a ! k)" by (simp add: heap_at_def below_def)
    with lvl_gchildren [OF g(1)] assms(2) have "le mn (a ! g) (a ! k)" by simp
    with 1 show ?thesis by (rule xle_trans)
  qed
qed

text \<open>No swap: the value at \<open>s\<close> is already extremal.\<close>

lemma sift_keep:
  assumes "left s \<le> r" and "lvl s = mn" and "\<forall>i \<in> below r s. heap_at a r i"
    and "le mn (a ! s) (a ! snd (x_cg mn a s r))"
  shows "heap_at a r s"
  unfolding heap_at_def
proof
  fix k assume "k \<in> below r s"
  from assms(4) x_cg_below [OF assms(1-3) this] show "le (lvl s) (a ! s) (a ! k)"
    unfolding assms(2) by (rule xle_trans)
qed

lemma heap_at_leaf: "r < left s \<Longrightarrow> heap_at a r s"
  by (simp add: heap_at_def below_empty)

text \<open>Swap with a child.\<close>

lemma sift_child:
  assumes "lvl s = mn" and "r < length a" and "m \<le> r" and "child s m"
    and "\<forall>i \<in> below r s. heap_at a r i"
    and "\<forall>k \<in> below r s. le mn (a ! m) (a ! k)"
    and "lt mn (a ! m) (a ! s)"
  shows "perm_on (sub r s) a (swap a m s) \<and> (\<forall>i \<in> sub r s. heap_at (swap a m s) r i)"
proof
  from assms(4) have sm: "s < m" "anc s m" "parent m = s" by (auto simp: child_def)
  with assms(2,3) have len: "m < length a" "s < length a" by simp_all
  note nth = swap_nth [OF len]
  from sm assms(3) have mem: "m \<in> sub r s" "s \<in> sub r s" "m \<in> below r s"
    by (simp_all add: sub_def below_def)
  show "perm_on (sub r s) a (swap a m s)"
    using mem len by (intro perm_on_swap)
  show "\<forall>i \<in> sub r s. heap_at (swap a m s) r i"
  proof
    fix i assume i: "i \<in> sub r s"
    consider "i = s" | "i = m" | "i \<noteq> s" "i \<noteq> m" by blast
    then show "heap_at (swap a m s) r i"
    proof cases
      case 1
      have "le mn (a ! m) (swap a m s ! k)" if "k \<in> below r s" for k
        using that assms(6,7) xlt_imp_le by (auto simp: nth)
      with 1 assms(1) sm show ?thesis by (simp add: heap_at_def nth)
    next
      case 2
      have "le mn (swap a m s ! k) (a ! s)" if "k \<in> below r m" for k
      proof -
        from that have k: "k \<le> r" "anc m k" by (simp_all add: below_def)
        with anc_less [OF k(2)] sm have "k \<noteq> m" "k \<noteq> s" by simp_all
        then have "swap a m s ! k = a ! k" by (simp add: nth)
        moreover from assms(5) mem have "heap_at a r m" by blast
        with that lvl_child [OF assms(4)] assms(1) have "le mn (a ! k) (a ! m)"
          by (simp add: heap_at_def)
        ultimately show ?thesis using xlt_imp_le [OF assms(7)] xle_trans by metis
      qed
      with 2 lvl_child [OF assms(4)] assms(1) sm show ?thesis by (simp add: heap_at_def nth)
    next
      case 3
      with i have ai: "anc s i" "i \<le> r" by (simp_all add: sub_def)
      have "k \<noteq> s \<and> k \<noteq> m" if "k \<in> below r i" for k
      proof -
        from that have k: "anc i k" by (simp add: below_def)
        from anc_less [OF k] anc_less [OF ai(1)] have "k \<noteq> s" by simp
        moreover have "k \<noteq> m"
        proof
          assume "k = m"
          with k anc_up [of i m] sm have "i = s \<or> anc i s" by auto
          with 3 anc_less [OF ai(1)] anc_less [of i s] show False by auto
        qed
        ultimately show ?thesis ..
      qed
      then have "\<forall>k \<in> below r i. swap a m s ! k = a ! k" by (simp add: nth)
      moreover from 3 have "swap a m s ! i = a ! i" by (simp add: nth)
      ultimately have "heap_at (swap a m s) r i = heap_at a r i" by (intro heap_at_cong)
      with assms(5) ai show ?thesis by (simp add: below_def)
    qed
  qed
qed

text \<open>Swap with a grandchild, the repair of its parent, and the rest of the loop.\<close>

lemma sift_gchild_vals:
  assumes "r < length a" and "m \<le> r" and "m \<in> set (gchildren s)"
    and "lt mn (a ! m) (a ! s)"
    and "a2 = (if lt mn (swap a m s ! parent m) (swap a m s ! m)
               then swap (swap a m s) m (parent m) else swap a m s)"
  shows "length a2 = length a" and "a2 ! s = a ! m"
    and "le mn (a2 ! m) (a2 ! parent m)" and "le mn (a ! parent m) (a2 ! parent m)"
    and "\<forall>k. k \<noteq> s \<and> k \<noteq> parent m \<and> k \<noteq> m \<longrightarrow> a2 ! k = a ! k"
    and "perm_on {s, parent m, m} a a2"
proof -
  from gchildren_parent [OF assms(3)] have p: "s < parent m" "parent m < m"
    by (auto simp: child_def)
  with assms(1,2) have len: "m < length a" "s < length a" "parent m < length a" by simp_all
  note nth = swap_nth [OF len(1,2)]
  have len1: "m < length (swap a m s)" "parent m < length (swap a m s)" using len by simp_all
  note nth1 = swap_nth [OF len1]
  show "length a2 = length a" by (simp add: assms(5))
  show "a2 ! s = a ! m" using p by (simp add: assms(5) nth nth1)
  show "le mn (a2 ! m) (a2 ! parent m)" using p by (auto simp: assms(5) nth nth1 xlt_imp_le)
  show "le mn (a ! parent m) (a2 ! parent m)" using p by (auto simp: assms(5) nth nth1 xlt_imp_le)
  show "\<forall>k. k \<noteq> s \<and> k \<noteq> parent m \<and> k \<noteq> m \<longrightarrow> a2 ! k = a ! k"
    by (simp add: assms(5) nth nth1)
  have 1: "perm_on {s, parent m, m} a (swap a m s)"
    using len by (intro perm_on_swap) simp_all
  have 2: "perm_on {s, parent m, m} (swap a m s) (swap (swap a m s) m (parent m))"
    using len1 by (intro perm_on_swap) simp_all
  show "perm_on {s, parent m, m} a a2"
    using 1 perm_on_trans [OF 1 2] by (simp add: assms(5))
qed

lemma gchild_ancestors:
  assumes "m \<in> set (gchildren s)" and "anc i m"
  shows "i = parent m \<or> i = s \<or> anc i s"
proof -
  from gchildren_parent [OF assms(1)] have "parent (parent m) = s" by simp
  with anc_up [OF assms(2)] anc_up [of i "parent m"] show ?thesis by auto
qed

lemma sift_gchild_pre:
  assumes "r < length a" and "m \<le> r" and "m \<in> set (gchildren s)"
    and "\<forall>i \<in> below r s. heap_at a r i"
    and "\<forall>k. k \<noteq> s \<and> k \<noteq> parent m \<and> k \<noteq> m \<longrightarrow> a2 ! k = a ! k"
  shows "\<forall>i \<in> below r m. heap_at a2 r i"
proof
  fix i assume i: "i \<in> below r m"
  from gchildren_parent [OF assms(3)] have p: "s < parent m" "parent m < m"
    by (auto simp: child_def)
  from i have im: "anc m i" "i \<le> r" by (simp_all add: below_def)
  with p anc_less [OF im(1)] have "a2 ! i = a ! i" by (simp add: assms(5))
  moreover have "\<forall>k \<in> below r i. a2 ! k = a ! k"
  proof
    fix k assume "k \<in> below r i"
    then have "i < k" by (simp add: below_def anc_less)
    with p anc_less [OF im(1)] show "a2 ! k = a ! k" by (simp add: assms(5))
  qed
  ultimately have "heap_at a2 r i = heap_at a r i" by (rule heap_at_cong)
  moreover from im gchildren_anc [OF assms(3)] have "i \<in> below r s"
    by (auto simp: below_def intro: anc_trans)
  ultimately show "heap_at a2 r i" using assms(4) by simp
qed

lemma sift_gchild_post:
  assumes "lvl s = mn" and "r < length a" and "m \<le> r" and "m \<in> set (gchildren s)"
    and pre: "\<forall>i \<in> below r s. heap_at a r i"
    and least: "\<forall>k \<in> below r s. le mn (a ! m) (a ! k)"
    and lt: "lt mn (a ! m) (a ! s)"
    and a2: "a2 ! s = a ! m" "le mn (a2 ! m) (a2 ! parent m)"
      "le mn (a ! parent m) (a2 ! parent m)"
      "\<forall>k. k \<noteq> s \<and> k \<noteq> parent m \<and> k \<noteq> m \<longrightarrow> a2 ! k = a ! k"
      "perm_on {s, parent m, m} a a2"
    and rec: "perm_on (sub r m) a2 a3" "\<forall>i \<in> sub r m. heap_at a3 r i"
  shows "perm_on (sub r s) a a3 \<and> (\<forall>i \<in> sub r s. heap_at a3 r i)"
proof
  let ?p = "parent m"
  from gchildren_parent [OF assms(4)]
  have p: "s < ?p" "?p < m" "parent ?p = s" "child s ?p" "0 < m"
    by (auto simp: child_def)
  have sp: "anc s ?p" using p(4) by (rule child_anc)
  have pm: "anc ?p m" using p(5) by (rule anc_parent)
  have sm: "anc s m" using assms(4) by (rule gchildren_anc)
  from p assms(3) have r: "s \<le> r" "?p \<le> r" by simp_all
  from r assms(3) sp sm have "{s, ?p, m} \<subseteq> sub r s" by (simp add: sub_def)
  from perm_on_mono [OF a2(5) this] have 1: "perm_on (sub r s) a a2" .
  have "sub r m \<subseteq> sub r s" using sm by (auto simp: sub_def intro: anc_trans)
  from perm_on_mono [OF rec(1) this] have 2: "perm_on (sub r s) a2 a3" .
  from perm_on_trans [OF 1 2] show perm: "perm_on (sub r s) a a3" .
  have "s \<notin> sub r m" using anc_less [of m s] anc_less [OF sm] by (auto simp: sub_def)
  from perm_on_outside [OF rec(1) this] a2(1) have s3: "a3 ! s = a ! m" by simp
  have "?p \<notin> sub r m" using anc_less [of m ?p] anc_less [OF pm] by (auto simp: sub_def)
  from perm_on_outside [OF rec(1) this] have p3: "a3 ! ?p = a2 ! ?p" .
  show "\<forall>i \<in> sub r s. heap_at a3 r i"
  proof
    fix i assume i: "i \<in> sub r s"
    consider "i \<in> sub r m" | "i = s" | "i = ?p" | "i \<notin> sub r m" "i \<noteq> s" "i \<noteq> ?p" by blast
    then show "heap_at a3 r i"
    proof cases
      case 1
      with rec(2) show ?thesis by blast
    next
      case 2
      have "le mn (a ! m) (a3 ! k)" if "k \<in> below r s" for k
      proof -
        from that below_sub have "a3 ! k \<in> (\<lambda>j. a3 ! j) ` sub r s" by blast
        also have "\<dots> = (\<lambda>j. a ! j) ` sub r s" using perm by (simp add: perm_on_def)
        finally obtain k' where k': "k' \<in> sub r s" "a3 ! k = a ! k'" by blast
        from k'(1) r(1) have "k' = s \<or> k' \<in> below r s" by (auto simp: sub_def below_def)
        with least xlt_imp_le [OF lt] k'(2) show ?thesis by auto
      qed
      with 2 assms(1) s3 show ?thesis by (simp add: heap_at_def)
    next
      case 3
      have "le mn (a3 ! k) (a2 ! ?p)" if "k \<in> below r ?p" for k
      proof -
        have "sub r m \<subseteq> below r ?p" using pm by (rule sub_in_below)
        from perm_on_image [OF rec(1) this] that
        obtain k' where k': "k' \<in> below r ?p" "a3 ! k = a2 ! k'" by blast
        show ?thesis
        proof (cases "k' = m")
          case True
          with k'(2) a2(2) show ?thesis by simp
        next
          case False
          from k'(1) have ak: "anc ?p k'" by (simp add: below_def)
          from anc_less [OF ak] p False have "a2 ! k' = a ! k'" by (simp add: a2(4))
          moreover from pre sp r have "heap_at a r ?p" by (simp add: below_def)
          with k'(1) lvl_child [OF p(4)] assms(1) have "le mn (a ! k') (a ! ?p)"
            by (simp add: heap_at_def)
          ultimately show ?thesis using a2(3) k'(2) xle_trans by metis
        qed
      qed
      with 3 lvl_child [OF p(4)] assms(1) p3 show ?thesis by (simp add: heap_at_def)
    next
      case 4
      with i have ai: "anc s i" "i \<le> r" by (simp_all add: sub_def)
      from 4 ai have nm: "i \<noteq> m" "\<not> anc m i" by (auto simp: sub_def)
      have nanc: "\<not> anc i m"
      proof
        assume "anc i m"
        from gchild_ancestors [OF assms(4) this] 4 anc_less [OF ai(1)] anc_less [of i s]
        show False by auto
      qed
      have keep: "a3 ! k = a ! k" if "k = i \<or> anc i k" for k
      proof -
        from that 4 nm nanc have k1: "k \<noteq> m" by auto
        from that 4 anc_less [OF ai(1)] anc_less [of i k] have k2: "k \<noteq> s" by auto
        have k3: "k \<noteq> ?p"
        proof
          assume "k = ?p"
          with that 4 have "anc i ?p" by auto
          from anc_up [OF this] p(3) 4 anc_less [OF ai(1)] anc_less [of i s]
          show False by auto
        qed
        have "\<not> anc m k"
        proof
          assume mk: "anc m k"
          from that show False
          proof
            assume "k = i" with mk nm show False by simp
          next
            assume "anc i k"
            from anc_comparable [OF this mk] nm nanc show False by auto
          qed
        qed
        with k1 have "k \<notin> sub r m" by (simp add: sub_def)
        with rec(1) have "a3 ! k = a2 ! k" by (simp add: perm_on_def)
        with k1 k2 k3 show ?thesis by (simp add: a2(4))
      qed
      have "heap_at a3 r i = heap_at a r i"
        by (rule heap_at_cong) (simp_all add: keep below_def)
      with pre ai show ?thesis by (simp add: below_def)
    qed
  qed
qed

text \<open>
  Sifting down from \<open>s\<close>, on the level of \<open>s\<close>, when every node below \<open>s\<close> is in order:
  the subtree of \<open>s\<close> is rearranged and every node of it is in order.
\<close>

lemma sift_correct:
  assumes "lvl s = mn" and "r < length a" and "s \<le> r" and "\<forall>i \<in> below r s. heap_at a r i"
  shows "perm_on (sub r s) a (sift mn a s r) \<and> (\<forall>i \<in> sub r s. heap_at (sift mn a s r) r i)"
  using assms
proof (induction mn a s r rule: sift.induct)
  case (1 mn a s r)
  note pre = "1.prems"(4)
  have sub: "sub r s = insert s (below r s)" using "1.prems"(3) by (simp add: sub_below)
  show ?case
  proof (cases "left s \<le> r")
    case False
    then have "sift mn a s r = a" by (simp add: sift.simps [of mn a s r])
    moreover from False have "heap_at a r s" by (simp add: heap_at_leaf)
    ultimately show ?thesis using pre by (simp add: sub)
  next
    case True
    define m where "m = snd (x_cg mn a s r)"
    have mr: "m \<le> r" unfolding m_def by (rule x_cg_mem(1) [OF True])
    have least: "\<forall>k \<in> below r s. le mn (a ! m) (a ! k)"
      unfolding m_def using x_cg_below [OF True "1.prems"(1) pre] by blast
    show ?thesis
    proof (cases "lt mn (a ! m) (a ! s)")
      case False
      then have "sift mn a s r = a"
        using True by (simp add: sift.simps [of mn a s r] m_def Let_def xle_not_lt)
      moreover have "heap_at a r s"
        using False sift_keep [OF True "1.prems"(1) pre] by (simp add: m_def)
      ultimately show ?thesis using pre by (simp add: sub)
    next
      case lt: True
      show ?thesis
      proof (cases "child s m")
        case True
        then have "sift mn a s r = swap a m s"
          using \<open>left s \<le> r\<close> lt by (simp add: sift.simps [of mn a s r] m_def Let_def)
        with sift_child [OF "1.prems"(1,2) mr True pre least lt] show ?thesis by simp
      next
        case False
        define a2 where "a2 = (if lt mn (swap a m s ! parent m) (swap a m s ! m)
               then swap (swap a m s) m (parent m) else swap a m s)"
        have eq: "sift mn a s r = sift mn a2 m r"
          using \<open>left s \<le> r\<close> lt False
          by (simp add: sift.simps [of mn a s r] m_def a2_def Let_def)
        have g: "m \<in> set (gchildren s)"
          using x_cg_gchild(1) [OF \<open>left s \<le> r\<close>, of mn a] False by (simp add: m_def)
        note vals = sift_gchild_vals [OF "1.prems"(2) mr g lt a2_def]
        have pre2: "\<forall>i \<in> below r m. heap_at a2 r i"
          by (rule sift_gchild_pre [OF "1.prems"(2) mr g pre vals(5)])
        have lm: "lvl m = mn" using lvl_gchildren [OF g] "1.prems"(1) by simp
        have len2: "r < length a2" using vals(1) "1.prems"(2) by simp
        have "perm_on (sub r m) a2 (sift mn a2 m r) \<and>
              (\<forall>i \<in> sub r m. heap_at (sift mn a2 m r) r i)"
          using "1.IH" [OF \<open>left s \<le> r\<close> m_def [symmetric, THEN sym] False lt refl a2_def lm len2 mr pre2]
          by simp
        then show ?thesis
          unfolding eq
          using sift_gchild_post [OF "1.prems"(1,2) mr g pre least lt vals(2-6)] by blast
      qed
    qed
  qed
qed

section \<open>Bubbling up\<close>

text \<open>
  \<open>heap_ex a r x\<close>: every node other than \<open>x\<close> is in order.  \<open>swim_inv mn a r x b\<close>: the
  same, except that the value at \<open>b\<close> may still be out of order with its ancestors
  on the levels of kind \<open>mn\<close>.
\<close>

definition heap_ex :: "'a::linorder list \<Rightarrow> nat \<Rightarrow> nat \<Rightarrow> bool" where
  "heap_ex a r x = (\<forall>i. i \<noteq> x \<longrightarrow> heap_at a r i)"

definition swim_inv :: "bool \<Rightarrow> 'a::linorder list \<Rightarrow> nat \<Rightarrow> nat \<Rightarrow> nat \<Rightarrow> bool" where
  "swim_inv mn a r x b =
     (\<forall>i j. j \<le> r \<longrightarrow> anc i j \<longrightarrow> i \<noteq> x \<longrightarrow> \<not> (j = b \<and> lvl i = mn) \<longrightarrow>
        le (lvl i) (a ! i) (a ! j))"

lemma heap_ex_iff:
  "heap_ex a r x \<longleftrightarrow> (\<forall>i j. j \<le> r \<longrightarrow> anc i j \<longrightarrow> i \<noteq> x \<longrightarrow> le (lvl i) (a ! i) (a ! j))"
  by (auto simp: heap_ex_def heap_at_def below_def)

lemma gparent_facts:
  assumes "has_gparent b"
  shows "0 < b" "0 < parent b" "parent (parent b) = gparent b" "anc (parent b) b"
    "anc (gparent b) (parent b)" "anc (gparent b) b" "lvl (gparent b) = lvl b"
    "lvl (parent b) = (\<not> lvl b)" "gparent b < parent b" "parent b < b"
proof -
  from assms show b: "0 < b" by (simp add: has_gparent_def)
  from assms show p: "0 < parent b" by (simp add: has_gparent_def parent_def)
  show "parent (parent b) = gparent b" by (simp add: gparent_def)
  from anc_parent [OF b] show 1: "anc (parent b) b" .
  from anc_parent [OF p] show 2: "anc (gparent b) (parent b)" by (simp add: gparent_def)
  from anc_trans [OF 2 1] show "anc (gparent b) b" .
  from lvl_parent [OF b] lvl_parent [OF p] show "lvl (gparent b) = lvl b"
    by (simp add: gparent_def)
  from lvl_parent [OF b] show "lvl (parent b) = (\<not> lvl b)" .
  from anc_less [OF 2] show "gparent b < parent b" .
  from anc_less [OF 1] show "parent b < b" .
qed

lemma anc_up2:
  assumes "anc i b"
  shows "i = parent b \<or> i = gparent b \<or> anc i (gparent b)"
  using anc_up [OF assms] anc_up [of i "parent b"] by (auto simp: gparent_def)

lemma no_gparent_levels:
  assumes "\<not> has_gparent b" and "anc i b"
  shows "lvl i \<noteq> lvl b"
proof -
  from assms(2) have b: "0 < b" by (rule anc_pos)
  with assms(1) have "parent b = 0" by (simp add: has_gparent_def parent_def)
  with anc_up [OF assms(2)] have "i = parent b" using anc_pos [of i 0] by auto
  with lvl_parent [OF b] show ?thesis by simp
qed

lemma swim_done:
  assumes "lvl b = mn" and "swim_inv mn a r x b"
    and "has_gparent b \<longrightarrow> le mn (a ! gparent b) (a ! b)" and "\<not> anc x b"
  shows "heap_ex a r x"
  unfolding heap_ex_iff
proof (intro allI impI)
  fix i j assume ij: "j \<le> r" "anc i j" "i \<noteq> x"
  show "le (lvl i) (a ! i) (a ! j)"
  proof (cases "j = b \<and> lvl i = mn")
    case False
    with assms(2) ij show ?thesis by (simp add: swim_inv_def)
  next
    case True
    with ij(2) assms(1) no_gparent_levels [of b i] have g: "has_gparent b" by auto
    note gf = gparent_facts [OF g]
    from True ij(2) anc_up2 [of i b] gf(8) assms(1)
    consider "i = gparent b" | "anc i (gparent b)" by auto
    then show ?thesis
    proof cases
      case 1
      with True assms(3) g show ?thesis by simp
    next
      case 2
      from gf(10) gf(9) True ij(1) have "gparent b \<le> r" "gparent b \<noteq> b" by simp_all
      with assms(2) 2 ij(3) have "le (lvl i) (a ! i) (a ! gparent b)"
        by (simp add: swim_inv_def)
      with True assms(3) g show ?thesis using xle_trans by auto
    qed
  qed
qed

lemma swim_step:
  assumes "lvl b = mn" and "b \<le> r" and "r < length a" and "\<not> anc x b"
    and "swim_inv mn a r x b" and "has_gparent b" and "lt mn (a ! b) (a ! gparent b)"
  shows "swim_inv mn (swap a b (gparent b)) r x (gparent b)"
  unfolding swim_inv_def
proof (intro allI impI)
  let ?g = "gparent b" and ?p = "parent b"
  let ?a = "swap a b ?g"
  fix i j
  assume ij: "j \<le> r" "anc i j" "i \<noteq> x" "\<not> (j = ?g \<and> lvl i = mn)"
  note gf = gparent_facts [OF assms(6)]
  from gf assms(2,3) have len: "b < length a" "?g < length a" by simp_all
  note nth = swap_nth [OF len]
  have xg: "?g \<noteq> x" using assms(4) gf(6) by auto
  have old: "le (lvl i') (a ! i') (a ! j')"
    if "j' \<le> r" "anc i' j'" "i' \<noteq> x" "\<not> (j' = b \<and> lvl i' = mn)" for i' j'
    using assms(5) that by (simp add: swim_inv_def)
  have le_vw: "le mn (a ! b) (a ! ?g)" using assms(7) by (rule xlt_imp_le)
  consider (same) "i \<noteq> b" "i \<noteq> ?g" "j \<noteq> b" "j \<noteq> ?g"
    | (ib) "i = b" | (ig) "i = ?g" "j \<noteq> b" | (igb) "i = ?g" "j = b"
    | (jb) "j = b" "i \<noteq> ?g" | (jg) "j = ?g" "i \<noteq> b"
    using anc_irrefl by blast
  then show "le (lvl i) (?a ! i) (?a ! j)"
  proof cases
    case same
    with old [OF ij(1,2,3)] show ?thesis by (simp add: nth)
  next
    case ib
    with ij(2) have bj: "anc b j" by simp
    from anc_less [OF bj] gf(9,10) have "j \<noteq> b" "j \<noteq> ?g" by simp_all
    moreover from old [OF ij(1) anc_trans [OF gf(6) bj] xg] this(1)
    have "le mn (a ! ?g) (a ! j)" by (simp add: gf(7) assms(1))
    ultimately show ?thesis using ib assms(1) gf(9,10) by (simp add: nth)
  next
    case ig
    with ij(2) have "j \<noteq> ?g" by auto
    moreover from ig ij(2) have "anc ?g j" by simp
    from old [OF ij(1) this xg] ig(2) have "le mn (a ! ?g) (a ! j)"
      by (simp add: gf(7) assms(1))
    with le_vw have "le mn (a ! b) (a ! j)" by (rule xle_trans)
    ultimately show ?thesis using ig gf(7,9,10) assms(1) by (simp add: nth)
  next
    case igb
    with le_vw gf(7,9,10) assms(1) show ?thesis by (simp add: nth)
  next
    case jb
    with ij(2) have ib: "anc i b" "i \<noteq> b" by auto
    from anc_up2 [OF ib(1)] jb(2) consider "i = ?p" | "anc i ?g" by auto
    then have "le (lvl i) (a ! i) (a ! ?g)"
    proof cases
      case 1
      from old [of ?p ?g] gf(5,9,10) assms(2) xg have "le mn (a ! ?g) (a ! ?p)"
        by (simp add: gf(7) assms(1))
      with 1 gf(8) assms(1) show ?thesis by simp
    next
      case 2
      from old [OF _ 2 ij(3)] gf(9,10) assms(2) show ?thesis by simp
    qed
    with jb ib gf(9,10) show ?thesis by (simp add: nth)
  next
    case jg
    with ij(2,4) have ig: "anc i ?g" "lvl i \<noteq> mn" by auto
    from anc_less [OF ig(1)] have "i \<noteq> ?g" by simp
    moreover from old [OF assms(2) anc_trans [OF ig(1) gf(6)] ij(3)] ig(2)
    have "le (lvl i) (a ! i) (a ! b)" by simp
    ultimately show ?thesis using jg by (simp add: nth)
  qed
qed

lemma perm_on_swap_upto:
  assumes "i \<le> b" "j \<le> b" "b < length a"
  shows "perm_on {..b} a (swap a i j)"
  using assms by (intro perm_on_swap) simp_all

lemma bubble_correct:
  assumes "lvl b = mn" and "b \<le> r" and "r < length a" and "\<not> anc x b"
    and "swim_inv mn a r x b"
  shows "heap_ex (bubble mn a b) r x \<and> perm_on {..b} a (bubble mn a b)"
  using assms
proof (induction mn a b rule: bubble.induct)
  case (1 mn a b)
  show ?case
  proof (cases "has_gparent b \<and> lt mn (a ! b) (a ! gparent b)")
    case False
    then have "bubble mn a b = a" by (auto simp: bubble.simps [of mn a b])
    moreover from False have "has_gparent b \<longrightarrow> le mn (a ! gparent b) (a ! b)" by auto
    from swim_done [OF "1.prems"(1,5) this "1.prems"(4)] have "heap_ex a r x" .
    ultimately show ?thesis by simp
  next
    case True
    then have g: "has_gparent b" and lt: "lt mn (a ! b) (a ! gparent b)" by simp_all
    note gf = gparent_facts [OF g]
    let ?a = "swap a b (gparent b)"
    have eq: "bubble mn a b = bubble mn ?a (gparent b)"
      using True by (simp add: bubble.simps [of mn a b])
    have 1: "lvl (gparent b) = mn" using gf(7) "1.prems"(1) by simp
    have 2: "gparent b \<le> r" using gf(9,10) "1.prems"(2) by simp
    have 3: "r < length ?a" using "1.prems"(3) by simp
    have 4: "\<not> anc x (gparent b)" using "1.prems"(4) gf(6) anc_trans by blast
    note 5 = swim_step [OF "1.prems" g lt]
    from "1.IH" [OF g lt 1 2 3 4 5]
    have ih: "heap_ex (bubble mn ?a (gparent b)) r x"
      "perm_on {..gparent b} ?a (bubble mn ?a (gparent b))" by simp_all
    have "perm_on {..b} a ?a"
      using gf(9,10) "1.prems"(2,3) by (intro perm_on_swap_upto) simp_all
    moreover have "perm_on {..b} ?a (bubble mn ?a (gparent b))"
      using ih(2) by (rule perm_on_mono) (use gf(9,10) in simp)
    ultimately have "perm_on {..b} a (bubble mn ?a (gparent b))" by (rule perm_on_trans)
    with ih(1) show ?thesis by (simp add: eq)
  qed
qed

subsection \<open>The dispatchers\<close>

lemma sift_down_sift: "s + 1 < 2 ^ 64 \<Longrightarrow> sift_down a s r = sift (lvl s) a s r"
  by (simp add: sift_down_def min_level_lvl sift_down_min_sift sift_down_max_sift)

lemma bubble_up_bubble:
  assumes "b + 1 < 2 ^ 64"
  shows "bubble_up a b =
     (if has_parent b \<and> lt (lvl b) (a ! parent b) (a ! b)
      then bubble (\<not> lvl b) (swap a b (parent b)) (parent b) else bubble (lvl b) a b)"
  by (simp add: bubble_up_def min_level_lvl [OF assms] bubble_up_min_bubble
      bubble_up_max_bubble lt_def)

text \<open>
  Bubbling up from \<open>b\<close> when every pair of nodes that does not involve \<open>b\<close> is in
  order: afterwards every node but \<open>b\<close> is in order.
\<close>

definition heap_but :: "'a::linorder list \<Rightarrow> nat \<Rightarrow> nat \<Rightarrow> bool" where
  "heap_but a r b =
     (\<forall>i j. j \<le> r \<longrightarrow> anc i j \<longrightarrow> i \<noteq> b \<longrightarrow> j \<noteq> b \<longrightarrow> le (lvl i) (a ! i) (a ! j))"

lemma swim_start_parent:
  assumes "b \<le> r" and "r < length a" and "heap_but a r b" and "0 < b"
    and "lt (lvl b) (a ! parent b) (a ! b)"
  shows "swim_inv (\<not> lvl b) (swap a b (parent b)) r b (parent b)"
  unfolding swim_inv_def
proof (intro allI impI)
  let ?p = "parent b" and ?mn = "lvl b"
  let ?a = "swap a b ?p"
  fix i j
  assume ij: "j \<le> r" "anc i j" "i \<noteq> b" "\<not> (j = ?p \<and> lvl i = (\<not> ?mn))"
  have pb: "anc ?p b" "?p < b" "lvl ?p = (\<not> ?mn)"
    using anc_parent [OF assms(4)] parent_less [OF assms(4)] lvl_parent [OF assms(4)]
    by simp_all
  from pb assms(1,2) have len: "b < length a" "?p < length a" by simp_all
  note nth = swap_nth [OF len]
  have old: "le (lvl i') (a ! i') (a ! j')" if "j' \<le> r" "anc i' j'" "i' \<noteq> b" "j' \<noteq> b" for i' j'
    using assms(3) that by (simp add: heap_but_def)
  have pr: "?p \<le> r" using pb assms(1) by simp
  consider (same) "i \<noteq> ?p" "j \<noteq> b" "j \<noteq> ?p" | (pb) "i = ?p" "j = b"
    | (pj) "i = ?p" "j \<noteq> b" | (jb) "j = b" "i \<noteq> ?p" | (jp) "j = ?p"
    by blast
  then show "le (lvl i) (?a ! i) (?a ! j)"
  proof cases
    case same
    with old [OF ij(1,2,3)] ij(3) show ?thesis by (simp add: nth)
  next
    case pb
    with assms(5) \<open>?p < b\<close> \<open>lvl ?p = (\<not> ?mn)\<close> show ?thesis
      by (simp add: nth xlt_imp_le)
  next
    case pj
    with ij(2) have "j \<noteq> ?p" by auto
    moreover from pj ij(2) have "anc ?p j" by simp
    from old [OF ij(1) this _ pj(2)] pb have "le ?mn (a ! j) (a ! ?p)" by simp
    with xlt_imp_le [OF assms(5)] have "le ?mn (a ! j) (a ! b)" using xle_trans by blast
    ultimately show ?thesis using pj pb by (simp add: nth)
  next
    case jb
    with ij(2) anc_up [of i b] have "anc i ?p" by auto
    from old [OF pr this ij(3)] pb have "le (lvl i) (a ! i) (a ! ?p)" by simp
    moreover from \<open>anc i ?p\<close> have "i \<noteq> ?p" by auto
    ultimately show ?thesis using jb ij(3) pb by (simp add: nth)
  next
    case jp
    with ij(2,4) have ip: "anc i ?p" "lvl i = ?mn" by auto
    then have "i \<noteq> ?p" by auto
    moreover from old [OF pr ip(1) ij(3)] pb ip(2) have "le ?mn (a ! i) (a ! ?p)" by simp
    with xlt_imp_le [OF assms(5)] have "le ?mn (a ! i) (a ! b)" using xle_trans by blast
    ultimately show ?thesis using jp ij(3) pb ip(2) by (simp add: nth)
  qed
qed

lemma swim_start_self:
  assumes "heap_but a r b" and "0 < b \<longrightarrow> le (lvl b) (a ! b) (a ! parent b)"
  shows "swim_inv (lvl b) a r b b"
  unfolding swim_inv_def
proof (intro allI impI)
  let ?p = "parent b" and ?mn = "lvl b"
  fix i j
  assume ij: "j \<le> r" "anc i j" "i \<noteq> b" "\<not> (j = b \<and> lvl i = ?mn)"
  have old: "le (lvl i') (a ! i') (a ! j')" if "j' \<le> r" "anc i' j'" "i' \<noteq> b" "j' \<noteq> b" for i' j'
    using assms(1) that by (simp add: heap_but_def)
  show "le (lvl i) (a ! i) (a ! j)"
  proof (cases "j = b")
    case False
    with old [OF ij(1,2,3)] show ?thesis .
  next
    case True
    with ij(2,4) have ib: "anc i b" "lvl i = (\<not> ?mn)" by auto
    from anc_pos [OF ib(1)] have b: "0 < b" .
    with assms(2) have le: "le ?mn (a ! b) (a ! ?p)" by simp
    from anc_up [OF ib(1)] show ?thesis
    proof
      assume "?p = i"
      with le ib(2) True show ?thesis by auto
    next
      assume ip: "anc i ?p"
      have "?p \<le> r" "?p \<noteq> b" using parent_less [OF b] True ij(1) by simp_all
      from old [OF this(1) ip ij(3) this(2)] ib(2) have "le ?mn (a ! ?p) (a ! i)" by simp
      with le have "le ?mn (a ! b) (a ! i)" by (rule xle_trans)
      with ib(2) True show ?thesis by simp
    qed
  qed
qed

lemma bubble_up_correct:
  assumes "b + 1 < 2 ^ 64" and "b \<le> r" and "r < length a" and "heap_but a r b"
  shows "heap_ex (bubble_up a b) r b \<and> perm_on {..b} a (bubble_up a b)"
proof (cases "has_parent b \<and> lt (lvl b) (a ! parent b) (a ! b)")
  case True
  then have b: "0 < b" and lt: "lt (lvl b) (a ! parent b) (a ! b)"
    by (simp_all add: has_parent_def)
  let ?p = "parent b"
  have eq: "bubble_up a b = bubble (\<not> lvl b) (swap a b ?p) ?p"
    using True by (simp add: bubble_up_bubble [OF assms(1)])
  have pb: "?p < b" using parent_less [OF b] .
  have 1: "lvl ?p = (\<not> lvl b)" using lvl_parent [OF b] .
  have 2: "?p \<le> r" using pb assms(2) by simp
  have 3: "r < length (swap a b ?p)" using assms(3) by simp
  have 4: "\<not> anc b ?p" using pb anc_less [of b ?p] by auto
  note 5 = swim_start_parent [OF assms(2,3,4) b lt]
  from bubble_correct [OF 1 2 3 4 5]
  have r: "heap_ex (bubble (\<not> lvl b) (swap a b ?p) ?p) r b"
    "perm_on {..?p} (swap a b ?p) (bubble (\<not> lvl b) (swap a b ?p) ?p)" by simp_all
  have "perm_on {..b} a (swap a b ?p)"
    using pb assms(2,3) by (intro perm_on_swap_upto) simp_all
  moreover have "perm_on {..b} (swap a b ?p) (bubble (\<not> lvl b) (swap a b ?p) ?p)"
    using r(2) by (rule perm_on_mono) (use pb in simp)
  ultimately have "perm_on {..b} a (bubble (\<not> lvl b) (swap a b ?p) ?p)"
    by (rule perm_on_trans)
  with r(1) show ?thesis by (simp add: eq)
next
  case False
  then have eq: "bubble_up a b = bubble (lvl b) a b"
    by (auto simp: bubble_up_bubble [OF assms(1)])
  from False have "0 < b \<longrightarrow> le (lvl b) (a ! b) (a ! parent b)"
    by (auto simp: has_parent_def)
  from swim_start_self [OF assms(4) this] have "swim_inv (lvl b) a r b b" .
  from bubble_correct [OF refl assms(2,3) _ this] show ?thesis by (simp add: eq)
qed

section \<open>The heap invariant and the validator\<close>

text \<open>
  \<open>heap_inv a n\<close>: among the first \<open>n\<close> slots, every node on a min level is at most, and
  every node on a max level at least, each of its descendants.
\<close>

definition heap_inv :: "'a::linorder list \<Rightarrow> nat \<Rightarrow> bool" where
  "heap_inv a n = (\<forall>i j. j < n \<longrightarrow> anc i j \<longrightarrow> le (lvl i) (a ! i) (a ! j))"

lemma heap_inv_heap_at: "heap_inv a (Suc r) \<longleftrightarrow> (\<forall>i. heap_at a r i)"
  by (auto simp: heap_inv_def heap_at_def below_def less_Suc_eq_le)

lemma heap_inv_ex: "r < x \<Longrightarrow> heap_ex a r x \<longleftrightarrow> heap_inv a (Suc r)"
  using anc_less by (fastforce simp: heap_inv_def heap_ex_iff less_Suc_eq_le)

lemma heap_inv_mono: "heap_inv a n \<Longrightarrow> m \<le> n \<Longrightarrow> heap_inv a m"
  by (simp add: heap_inv_def)

lemma heap_inv_small: "n \<le> 1 \<Longrightarrow> heap_inv a n"
  using anc_pos by (fastforce simp: heap_inv_def)

lemma heap_inv_cong: "\<forall>j < n. a' ! j = a ! j \<Longrightarrow> heap_inv a' n = heap_inv a n"
proof -
  assume eq: "\<forall>j < n. a' ! j = a ! j"
  have "a' ! i = a ! i \<and> a' ! j = a ! j" if "j < n" "anc i j" for i j
    using eq that anc_less [OF that(2)] by simp
  then show ?thesis by (simp add: heap_inv_def)
qed

text \<open>The check that the validator makes at one node.\<close>

definition chk :: "'a::linorder list \<Rightarrow> nat \<Rightarrow> nat \<Rightarrow> bool" where
  "chk a r s = le (lvl s) (a ! s) (a ! snd (x_cg (lvl s) a s r))"

lemma chk_iff:
  assumes "left s \<le> r"
  shows "chk a r s \<longleftrightarrow>
    (\<forall>c \<le> r. child s c \<or> c \<in> set (gchildren s) \<longrightarrow> le (lvl s) (a ! s) (a ! c))"
proof
  assume c: "chk a r s"
  show "\<forall>c \<le> r. child s c \<or> c \<in> set (gchildren s) \<longrightarrow> le (lvl s) (a ! s) (a ! c)"
  proof (intro allI impI)
    fix c assume "c \<le> r" "child s c \<or> c \<in> set (gchildren s)"
    then have "le (lvl s) (a ! snd (x_cg (lvl s) a s r)) (a ! c)"
      by (intro x_cg_least [OF assms]) (auto simp: child_def)
    with c show "le (lvl s) (a ! s) (a ! c)" unfolding chk_def by (rule xle_trans)
  qed
next
  assume "\<forall>c \<le> r. child s c \<or> c \<in> set (gchildren s) \<longrightarrow> le (lvl s) (a ! s) (a ! c)"
  with x_cg_mem [OF assms, of "lvl s" a] show "chk a r s" by (auto simp: chk_def)
qed

lemma gchild_of_gparent: "has_gparent j \<Longrightarrow> j \<in> set (gchildren (gparent j))"
proof -
  assume g: "has_gparent j"
  note gf = gparent_facts [OF g]
  from child_of_parent [OF gf(1)] child_of_parent [OF gf(2)] show ?thesis
    by (auto simp: gchildren_def gparent_def)
qed

lemma local_global:
  assumes loc: "\<And>s c. c \<le> r \<Longrightarrow> child s c \<or> c \<in> set (gchildren s) \<Longrightarrow>
      le (lvl s) (a ! s) (a ! c)"
    and "anc i j" and "j \<le> r"
  shows "le (lvl i) (a ! i) (a ! j)"
  using assms(2,3)
proof (induction j rule: less_induct)
  case (less j)
  from less.prems have j: "0 < j" by (simp add: anc_pos)
  let ?p = "parent j"
  have cj: "child ?p j" using child_of_parent [OF j] by (simp add: child_def)
  have pj: "?p < j" using parent_less [OF j] .
  show ?case
  proof (cases "?p = i")
    case True
    with loc [OF less.prems(2)] cj show ?thesis by blast
  next
    case False
    with anc_up [OF less.prems(1)] have ip: "anc i ?p" by simp
    show ?thesis
    proof (cases "lvl ?p = lvl i")
      case True
      from less.IH [OF pj ip] pj less.prems(2) have "le (lvl i) (a ! i) (a ! ?p)" by simp
      moreover from loc [OF less.prems(2), of ?p] cj True have "le (lvl i) (a ! ?p) (a ! j)"
        by simp
      ultimately show ?thesis by (rule xle_trans)
    next
      case lv: False
      from anc_pos [OF ip] j have g: "has_gparent j"
        by (simp add: has_gparent_def parent_def split: if_splits)
      note gf = gparent_facts [OF g]
      let ?g = "gparent j"
      from lv gf(8) gf(7) have lg: "lvl ?g = lvl i" by auto
      from loc [OF less.prems(2), of ?g] gchild_of_gparent [OF g] lg
      have gj: "le (lvl i) (a ! ?g) (a ! j)" by simp
      show ?thesis
      proof (cases "?g = i")
        case True
        with gj show ?thesis by simp
      next
        case False
        with anc_up [OF ip] gf(3) have "anc i ?g" by simp
        from less.IH [OF _ this] gf(9,10) less.prems(2) have "le (lvl i) (a ! i) (a ! ?g)"
          by simp
        then show ?thesis using gj by (rule xle_trans)
      qed
    qed
  qed
qed

lemma left_parent_le: "0 < k \<Longrightarrow> left (parent k) \<le> k"
  using child_of_parent [of k] left_pos(3) [of "parent k"] by (metis less_imp_le order_refl)

lemma heap_inv_chk:
  "heap_inv a (Suc r) \<longleftrightarrow> (\<forall>k. 0 < k \<and> k \<le> r \<longrightarrow> chk a r (parent k))"
proof
  assume h: "heap_inv a (Suc r)"
  show "\<forall>k. 0 < k \<and> k \<le> r \<longrightarrow> chk a r (parent k)"
  proof (intro allI impI)
    fix k assume k: "0 < k \<and> k \<le> r"
    with left_parent_le [of k] have l: "left (parent k) \<le> r" by simp
    have "le (lvl (parent k)) (a ! parent k) (a ! c)"
      if "c \<le> r" "child (parent k) c \<or> c \<in> set (gchildren (parent k))" for c
      using h that child_anc gchildren_anc by (fastforce simp: heap_inv_def less_Suc_eq_le)
    then show "chk a r (parent k)" by (simp add: chk_iff [OF l])
  qed
next
  assume c: "\<forall>k. 0 < k \<and> k \<le> r \<longrightarrow> chk a r (parent k)"
  have loc: "le (lvl s) (a ! s) (a ! c)"
    if "c \<le> r" "child s c \<or> c \<in> set (gchildren s)" for s c
  proof -
    from that(2) have "left s \<le> c" using gchildren_above [of c s]
      by (auto simp: child_def left_def right_def)
    with that(1) have l: "left s \<le> r" by simp
    then have "0 < left s \<and> left s \<le> r" by simp
    with c have "chk a r (parent (left s))" by blast
    then have "chk a r s" by simp
    with that show ?thesis unfolding chk_iff [OF l] by blast
  qed
  show "heap_inv a (Suc r)"
    unfolding heap_inv_def using local_global [of r a] loc by (simp add: less_Suc_eq_le)
qed

lemma x_cg_fst: "fst (x_cg mn a i r) = (left i \<le> r)"
  by (simp add: x_cg_def)

lemma chk_code:
  assumes "left s \<le> r" and "min_level s = lvl s"
  shows "(if min_level s
         then let min_value = min_child_or_gchild a s r
              in res \<and> (\<not> fst min_value \<or> a ! s < a ! snd min_value \<or> a ! s = a ! snd min_value)
         else let max_value = max_child_or_gchild a s r
              in res \<and> (\<not> fst max_value \<or> a ! snd max_value < a ! s \<or> a ! snd max_value = a ! s))
     = (res \<and> chk a r s)"
proof (cases "lvl s")
  case True
  with assms show ?thesis
    by (simp add: min_cg_x x_cg_fst chk_def le_def Let_def le_less)
next
  case False
  with assms show ?thesis
    by (simp add: max_cg_x x_cg_fst chk_def le_def Let_def le_less)
qed

lemma is_heap_loop_iff:
  assumes "i < cnt" and "cnt < 2 ^ 64"
  shows "is_heap_loop a cnt i res \<longleftrightarrow>
    res \<and> (\<forall>k. 0 < k \<and> k \<le> i \<longrightarrow> chk a (cnt - 1) (parent k))"
  using assms
proof (induction a cnt i res rule: is_heap_loop.induct)
  case (1 a cnt i res)
  show ?case
  proof (cases "res \<and> has_parent i")
    case False
    then show ?thesis by (auto simp: is_heap_loop.simps [of a cnt i res] has_parent_def)
  next
    case True
    then have i: "0 < i" and res: res by (simp_all add: has_parent_def)
    let ?s = "parent i"
    have "?s + 1 < cnt" using parent_less [OF i] "1.prems"(1) by simp
    then have "?s + 1 < 2 ^ 64" using "1.prems"(2) by (rule less_trans)
    then have ml: "min_level ?s = lvl ?s" by (rule min_level_lvl)
    have l: "left ?s \<le> cnt - 1" using left_parent_le [OF i] "1.prems"(1) by simp
    define res1 where "res1 =
        (if min_level ?s
         then let min_value = min_child_or_gchild a ?s (cnt - 1)
              in res \<and> (\<not> fst min_value \<or> a ! ?s < a ! snd min_value \<or> a ! ?s = a ! snd min_value)
         else let max_value = max_child_or_gchild a ?s (cnt - 1)
              in res \<and> (\<not> fst max_value \<or> a ! snd max_value < a ! ?s \<or> a ! snd max_value = a ! ?s))"
    have r1: "res1 = chk a (cnt - 1) ?s"
      unfolding res1_def chk_code [OF l ml] using res by simp
    have step: "is_heap_loop a cnt i res = is_heap_loop a cnt (i - 1) res1"
      using True by (subst is_heap_loop.simps) (simp add: Let_def res1_def)
    have split: "(\<forall>k. 0 < k \<and> k \<le> i \<longrightarrow> chk a (cnt - 1) (parent k)) \<longleftrightarrow>
          chk a (cnt - 1) ?s \<and> (\<forall>k. 0 < k \<and> k \<le> i - 1 \<longrightarrow> chk a (cnt - 1) (parent k))"
    proof -
      have "k \<le> i \<longleftrightarrow> k = i \<or> k \<le> i - 1" for k using i by auto
      then show ?thesis using i by (simp only:) blast
    qed
    have "i - 1 < cnt" using "1.prems"(1) by simp
    from "1.IH" [OF True refl refl res1_def this "1.prems"(2)]
    have "is_heap_loop a cnt (i - 1) res1 \<longleftrightarrow>
          res1 \<and> (\<forall>k. 0 < k \<and> k \<le> i - 1 \<longrightarrow> chk a (cnt - 1) (parent k))" .
    then show ?thesis using res step split r1 by simp
  qed
qed

lemma is_heap_iff:
  assumes "cnt < 2 ^ 64"
  shows "is_heap a cnt \<longleftrightarrow> heap_inv a cnt"
proof (cases "cnt > 1")
  case False
  then show ?thesis by (simp add: is_heap_def heap_inv_small)
next
  case True
  then have "is_heap a cnt \<longleftrightarrow> (\<forall>k. 0 < k \<and> k \<le> cnt - 1 \<longrightarrow> chk a (cnt - 1) (parent k))"
    using is_heap_loop_iff [of "cnt - 1" cnt a True] assms by (simp add: is_heap_def)
  also have "\<dots> \<longleftrightarrow> heap_inv a (Suc (cnt - 1))" by (rule heap_inv_chk [symmetric])
  finally show ?thesis using True by simp
qed

section \<open>The public operations\<close>

lemma perm_on_take:
  assumes "perm_on T a b" and "T \<subseteq> {..<n}"
  shows "mset (take n b) = mset (take n a)" and "drop n b = drop n a"
proof -
  have len: "length b = length a" using assms(1) by (rule perm_on_length)
  show d: "drop n b = drop n a"
  proof (rule nth_equalityI)
    show "length (drop n b) = length (drop n a)" by (simp add: len)
    fix i assume "i < length (drop n b)"
    moreover have "n + i \<notin> T" using assms(2) by auto
    ultimately show "drop n b ! i = drop n a ! i"
      using perm_on_outside [OF assms(1)] len by simp
  qed
  have "mset (take n b) + mset (drop n b) = mset (take n a) + mset (drop n a)"
    using perm_on_mset [OF assms(1)] by (simp flip: mset_append)
  then show "mset (take n b) = mset (take n a)" by (simp add: d)
qed

lemma perm_on_nth_below:
  assumes "perm_on T a b" and "T \<subseteq> {..<n}" and "n \<le> j"
  shows "b ! j = a ! j"
proof -
  have "j \<notin> T" using assms(2,3) by auto
  then show ?thesis by (rule perm_on_outside [OF assms(1)])
qed

lemma sub_upto: "sub r s \<subseteq> {..r}"
  by (auto simp: sub_def)

lemma heap_at_beyond: "r \<le> i \<Longrightarrow> heap_at a r i"
  using anc_less by (fastforce simp: heap_at_def below_def)

text \<open>
  One sift-down at \<open>s\<close>, all nodes below \<open>s\<close> being in order: the nodes that were in
  order stay so, and the nodes of the subtree of \<open>s\<close> are in order.
\<close>

lemma sift_down_correct:
  assumes "r < 2 ^ 64" and "r < length a" and "s \<le> r" and "\<forall>i \<in> below r s. heap_at a r i"
  shows "perm_on (sub r s) a (sift_down a s r)"
    and "\<forall>i \<in> sub r s. heap_at (sift_down a s r) r i"
    and "\<And>i. i \<notin> sub r s \<Longrightarrow> heap_at a r i \<Longrightarrow> heap_at (sift_down a s r) r i"
proof -
  have "s + 1 \<le> r + 1" using assms(3) by simp
  also have "\<dots> \<le> 2 ^ 64" using assms(1) by simp
  finally have "s < 2 ^ 64" by simp
  have eq: "sift_down a s r = sift (lvl s) a s r"
  proof (cases "s + 1 < 2 ^ 64")
    case True
    then show ?thesis by (rule sift_down_sift)
  next
    case False
    with \<open>s + 1 \<le> r + 1\<close> assms(1) have "s = r" by simp
    then have "r < left s" by simp
    then show ?thesis
      by (simp add: sift_down_def sift_down_min_sift sift_down_max_sift sift.simps [of _ a s r])
  qed
  from sift_correct [OF refl assms(2,3,4)]
  show p: "perm_on (sub r s) a (sift_down a s r)"
    and "\<forall>i \<in> sub r s. heap_at (sift_down a s r) r i"
    by (simp_all add: eq)
  fix i assume i: "i \<notin> sub r s" "heap_at a r i"
  show "heap_at (sift_down a s r) r i"
  proof (cases "i \<le> r")
    case True
    from heap_at_outside [OF p i(1) True i(2)] show ?thesis .
  next
    case False
    then show ?thesis by (simp add: heap_at_beyond)
  qed
qed

subsection \<open>\<open>make_heap\<close>\<close>

lemma make_heap_loop_correct:
  assumes "r < 2 ^ 64" and "r < length a" and "c \<le> r" and "\<forall>i. c < i \<longrightarrow> heap_at a r i"
  shows "(\<forall>i. heap_at (make_heap_loop a c r) r i) \<and> perm_on {..r} a (make_heap_loop a c r)"
  using assms(2-)
proof (induction c arbitrary: a)
  case 0
  have pre: "\<forall>i \<in> below r 0. heap_at a r i" using 0(3) by (auto simp: below_def dest: anc_pos)
  note s = sift_down_correct [OF assms(1) 0(1,2) pre]
  have "heap_at (sift_down a 0 r) r i" for i
  proof (cases "i \<in> sub r 0")
    case True
    with s(2) show ?thesis by blast
  next
    case False
    then have "0 < i" by (auto simp: sub_def)
    with s(3) [OF False] 0(3) show ?thesis by simp
  qed
  moreover have "perm_on {..r} a (sift_down a 0 r)"
    using s(1) sub_upto by (rule perm_on_mono)
  ultimately show ?case by simp
next
  case (Suc c)
  let ?a = "sift_down a (Suc c) r"
  have pre: "\<forall>i \<in> below r (Suc c). heap_at a r i"
    using Suc.prems(3) by (auto simp: below_def dest: anc_less)
  note s = sift_down_correct [OF assms(1) Suc.prems(1,2) pre]
  have 1: "r < length ?a" using perm_on_length [OF s(1)] Suc.prems(1) by simp
  have 2: "c \<le> r" using Suc.prems(2) by simp
  have 3: "\<forall>i. c < i \<longrightarrow> heap_at ?a r i"
  proof (intro allI impI)
    fix i assume "c < i"
    show "heap_at ?a r i"
    proof (cases "i \<in> sub r (Suc c)")
      case True
      with s(2) show ?thesis by blast
    next
      case False
      then have "i \<noteq> Suc c" using Suc.prems(2) by (auto simp: sub_def)
      with \<open>c < i\<close> have "Suc c < i" by simp
      with s(3) [OF False] Suc.prems(3) show ?thesis by simp
    qed
  qed
  from Suc.IH [OF 1 2 3]
  have ih: "\<forall>i. heap_at (make_heap_loop ?a c r) r i" "perm_on {..r} ?a (make_heap_loop ?a c r)"
    by simp_all
  have "perm_on {..r} a ?a" using s(1) sub_upto by (rule perm_on_mono)
  from perm_on_trans [OF this ih(2)] ih(1) show ?case by simp
qed

lemma make_heap_correct:
  assumes "sz \<le> length a" and "sz < 2 ^ 64"
  shows "heap_inv (make_heap a sz) sz" and "perm_on {..<sz} a (make_heap a sz)"
proof -
  have "heap_inv (make_heap a sz) sz \<and> perm_on {..<sz} a (make_heap a sz)"
  proof (cases "sz > 1")
    case False
    then show ?thesis by (simp add: make_heap_def heap_inv_small)
  next
    case True
    define r where "r = sz - 1"
    with True have sz: "sz = Suc r" and r: "0 < r" by simp_all
    have 1: "r < 2 ^ 64" "r < length a" using assms by (simp_all add: sz)
    have 2: "parent r \<le> r" using parent_less [OF r] by simp
    have 3: "\<forall>i. parent r < i \<longrightarrow> heap_at a r i"
    proof (intro allI impI)
      fix i assume "parent r < i"
      with r have "r < left i" by (simp add: parent_def left_def)
      then show "heap_at a r i" by (rule heap_at_leaf)
    qed
    from make_heap_loop_correct [OF 1 2 3] True
    have "\<forall>i. heap_at (make_heap a sz) r i" "perm_on {..r} a (make_heap a sz)"
      by (simp_all add: make_heap_def r_def)
    moreover have "{..r} = {..<sz}" by (auto simp: sz)
    ultimately show ?thesis by (simp add: sz heap_inv_heap_at)
  qed
  then show "heap_inv (make_heap a sz) sz" and "perm_on {..<sz} a (make_heap a sz)" by simp_all
qed

lemma make_heap_loop_fold:
  "make_heap_loop a c r = fold (\<lambda>current h. sift_down h current r) (rev [0..<Suc c]) a"
  by (induction c arbitrary: a) simp_all

subsection \<open>The extremes at the top\<close>

lemma set_take_nth: "n \<le> length a \<Longrightarrow> set (take n a) = {a ! j |j. j < n}"
  using nth_image [of n a] by (auto simp: atLeast0LessThan)

lemma heap_inv_root:
  assumes "heap_inv a n" and "j < n"
  shows "a ! 0 \<le> a ! j"
proof (cases "j = 0")
  case False
  then have "anc 0 j" by (simp add: anc_zero)
  with assms show ?thesis by (auto simp: heap_inv_def le_def)
qed simp

lemma heap_min_correct:
  assumes "0 < n" and "n \<le> length a" and "heap_inv a n"
  shows "a ! 0 = Min (set (take n a))"
proof (rule Min_eqI [symmetric])
  show "finite (set (take n a))" by simp
  show "a ! 0 \<in> set (take n a)" using assms(1,2) by (auto simp: set_take_nth)
  fix y assume "y \<in> set (take n a)"
  then obtain j where "j < n" "y = a ! j" using assms(2) by (auto simp: set_take_nth)
  with heap_inv_root [OF assms(3)] show "a ! 0 \<le> y" by simp
qed

lemma left_0 [simp]: "left 0 = 1" and right_0 [simp]: "right 0 = 2"
  by (simp_all add: left_def right_def)

lemma lvl_1 [simp]: "\<not> lvl 1" and lvl_2 [simp]: "\<not> lvl 2"
  using lvl_left [of 0] lvl_right [of 0] by simp_all

lemma lvl_Suc_0 [simp]: "\<not> lvl (Suc 0)"
  using lvl_1 by simp

text \<open>The slot that \<open>heap_max\<close> and \<open>heap_remove_max\<close> read.\<close>

definition max_index :: "'a::linorder list \<Rightarrow> nat \<Rightarrow> nat" where
  "max_index a n = (if fst (max_child a 0 (n - 1)) then snd (max_child a 0 (n - 1)) else 0)"

lemma max_index_cases:
  "max_index a n =
     (if n \<le> 1 then 0 else if n = 2 then 1 else if a ! 1 < a ! 2 then 2 else 1)"
  by (auto simp: max_index_def max_child_def Let_def)

lemma max_index_less: "0 < n \<Longrightarrow> max_index a n < n"
  by (auto simp: max_index_cases)

lemma heap_inv_top:
  assumes "heap_inv a n" and "j < n"
  shows "a ! j \<le> a ! max_index a n"
proof -
  consider "j = 0" "n \<le> 1" | "j = 0" "1 < n" | "j = 1" | "j = 2" | "2 < j" by linarith
  then show ?thesis
  proof cases
    case 1
    then show ?thesis by (simp add: max_index_cases)
  next
    case 2
    then have "max_index a n < n" "0 < max_index a n" by (auto simp: max_index_cases)
    from heap_inv_root [OF assms(1) this(1)] 2 show ?thesis by simp
  next
    case 3
    with assms(2) show ?thesis by (auto simp: max_index_cases)
  next
    case 4
    with assms(2) show ?thesis by (auto simp: max_index_cases)
  next
    case 5
    then have "anc 0 j" by (simp add: anc_zero)
    from anc_top [OF this] 5 have "anc 1 j \<or> anc 2 j" by simp
    then have "a ! j \<le> a ! 1 \<or> (a ! j \<le> a ! 2 \<and> 2 < n)"
      using assms anc_less [of 2 j] by (auto simp: heap_inv_def le_def)
    with 5 assms(2) show ?thesis by (auto simp: max_index_cases)
  qed
qed

lemma heap_max_correct:
  assumes "0 < n" and "n \<le> length a" and "heap_inv a n"
  shows "a ! max_index a n = Max (set (take n a))"
proof (rule Max_eqI [symmetric])
  show "finite (set (take n a))" by simp
  show "a ! max_index a n \<in> set (take n a)"
    using max_index_less [OF assms(1)] assms(2) by (auto simp: set_take_nth)
  fix y assume "y \<in> set (take n a)"
  then obtain j where "j < n" "y = a ! j" using assms(2) by (auto simp: set_take_nth)
  with heap_inv_top [OF assms(3)] show "y \<le> a ! max_index a n" by simp
qed

lemma heap_max_index: "0 < n \<Longrightarrow> heap_max a n = Inr (a ! max_index a n)"
  by (auto simp: heap_max_def max_index_def Let_def)

subsection \<open>\<open>heap_insert\<close>\<close>

lemma heap_ex_last: "heap_ex a r r \<Longrightarrow> heap_inv a (Suc r)"
  using heap_at_beyond [of r r a] by (auto simp: heap_ex_def heap_inv_heap_at)

lemma heap_insert_correct:
  assumes "cnt < max_size" and "max_size \<le> length a" and "max_size < 2 ^ 64"
    and "heap_inv a cnt"
  shows "\<exists>a'. heap_insert v a cnt max_size = Inr (a', Suc cnt) \<and> heap_inv a' (Suc cnt) \<and>
           length a' = length a \<and> mset (take (Suc cnt) a') = add_mset v (mset (take cnt a)) \<and>
           drop (Suc cnt) a' = drop (Suc cnt) a"
proof -
  let ?a1 = "a[cnt := v]"
  let ?a' = "bubble_up ?a1 cnt"
  have len: "cnt < length a" using assms(1,2) by simp
  have "cnt + 1 \<le> max_size" using assms(1) by simp
  then have b: "cnt + 1 < 2 ^ 64" using assms(3) by (rule le_less_trans)
  have "heap_but ?a1 cnt cnt"
    unfolding heap_but_def
  proof (intro allI impI)
    fix i j assume ij: "j \<le> cnt" "anc i j" "i \<noteq> cnt" "j \<noteq> cnt"
    with anc_less [OF ij(2)] have "j < cnt" "i \<noteq> cnt" by simp_all
    with assms(4) ij(2) show "le (lvl i) (?a1 ! i) (?a1 ! j)" by (simp add: heap_inv_def)
  qed
  from bubble_up_correct [OF b order_refl _ this] len
  have r: "heap_ex ?a' cnt cnt" "perm_on {..cnt} ?a1 ?a'" by simp_all
  have "{..cnt} \<subseteq> {..<Suc cnt}" by auto
  note t = perm_on_take [OF r(2) this]
  have "take (Suc cnt) ?a1 = take cnt a @ [v]"
    using len by (simp add: take_Suc_conv_app_nth)
  with t(1) have "mset (take (Suc cnt) ?a') = add_mset v (mset (take cnt a))" by simp
  moreover have "drop (Suc cnt) ?a' = drop (Suc cnt) a" using t(2) by simp
  moreover have "length ?a' = length a" using perm_on_length [OF r(2)] by simp
  moreover have "heap_insert v a cnt max_size = Inr (?a', Suc cnt)"
    using assms(1) by (simp add: heap_insert_def)
  ultimately show ?thesis using heap_ex_last [OF r(1)] by simp
qed

subsection \<open>\<open>heap_remove_min\<close>\<close>

lemma heap_remove_min_correct:
  assumes "0 < cnt" and "cnt \<le> length a" and "cnt < 2 ^ 64" and "heap_inv a cnt"
  shows "\<exists>a'. heap_remove_min a cnt = Inr (a ! 0, a', cnt - 1) \<and> heap_inv a' (cnt - 1) \<and>
           length a' = length a \<and>
           add_mset (a ! 0) (mset (take (cnt - 1) a')) = mset (take cnt a) \<and>
           drop cnt a' = drop cnt a"
proof -
  define n where "n = cnt - 1"
  with assms(1) have cnt: "cnt = Suc n" by simp
  let ?a1 = "swap a 0 n"
  define a2 where "a2 = (if n > 0 then sift_down ?a1 0 (n - 1) else ?a1)"
  have eq: "heap_remove_min a cnt = Inr (a ! 0, a2, n)"
    using assms(1) by (simp add: heap_remove_min_def a2_def n_def Let_def)
  have len: "n < length a" using assms(2) cnt by simp
  then have len0: "0 < length a" by (cases a) simp_all
  note nth1 = swap_nth [OF len0 len]
  have p1: "perm_on {..<cnt} a ?a1" using len cnt by (intro perm_on_swap) auto
  have last: "?a1 ! n = a ! 0" by (simp add: nth1)
  have p2: "perm_on {..<n} ?a1 a2 \<and> heap_inv a2 n"
  proof (cases "n > 0")
    case False
    then show ?thesis by (simp add: a2_def heap_inv_small)
  next
    case True
    define r where "r = n - 1"
    with True have n: "n = Suc r" by simp
    have a2eq: "a2 = sift_down ?a1 0 r" using True by (simp add: a2_def r_def)
    have pre: "\<forall>i \<in> below r 0. heap_at ?a1 r i"
    proof
      fix i assume "i \<in> below r 0"
      then have i: "0 < i" "i \<le> r" by (auto simp: below_def dest: anc_pos)
      have "?a1 ! k = a ! k" if "0 < k" "k \<le> r" for k
      proof -
        from that n have "k \<noteq> 0" "k \<noteq> n" by simp_all
        then show ?thesis by (simp add: nth1)
      qed
      then have "heap_at ?a1 r i = heap_at a r i"
        using i by (intro heap_at_cong) (auto simp: below_def dest: anc_pos)
      moreover have "heap_at a r i"
        using assms(4) by (auto simp: heap_at_def below_def heap_inv_def cnt n)
      ultimately show "heap_at ?a1 r i" by simp
    qed
    have "r < 2 ^ 64" using assms(3) cnt n by simp
    moreover have "r < length ?a1" using len n by simp
    ultimately have s: "perm_on (sub r 0) ?a1 (sift_down ?a1 0 r)"
      "\<forall>i \<in> sub r 0. heap_at (sift_down ?a1 0 r) r i"
      using sift_down_correct [OF _ _ _ pre] by simp_all
    have "heap_at (sift_down ?a1 0 r) r i" for i
    proof (cases "i \<in> sub r 0")
      case True
      with s(2) show ?thesis by blast
    next
      case False
      then have "r < i" using anc_zero [of i] by (cases "i = 0") (auto simp: sub_def)
      then show ?thesis by (simp add: heap_at_beyond)
    qed
    then have "heap_inv a2 (Suc r)" by (simp only: a2eq heap_inv_heap_at) simp
    then have "heap_inv a2 n" by (simp only: n)
    moreover have "sub r 0 \<subseteq> {..<n}" using sub_upto [of r 0] n by auto
    from perm_on_mono [OF s(1) this] have "perm_on {..<n} ?a1 a2"
      by (simp only: a2eq)
    ultimately show ?thesis by simp
  qed
  note t1 = perm_on_take [OF p1 subset_refl]
  from p2 have p2': "perm_on {..<n} ?a1 a2" by simp
  note t2 = perm_on_take [OF p2' subset_refl]
  have "take cnt ?a1 = take n ?a1 @ [a ! 0]"
    using len last by (simp add: cnt take_Suc_conv_app_nth)
  with t1(1) t2(1) have "add_mset (a ! 0) (mset (take n a2)) = mset (take cnt a)"
    by (metis mset.simps(2) mset_append union_mset_add_mset_right add.right_neutral mset.simps(1))
  moreover have "drop cnt a2 = drop cnt a"
  proof -
    have "{..<n} \<subseteq> {..<cnt}" using cnt by auto
    from perm_on_take(2) [OF p2' this] t1(2) show ?thesis by simp
  qed
  moreover have "length a2 = length a" using perm_on_length [OF p2'] by simp
  ultimately show ?thesis using eq p2 by (simp add: n_def)
qed

subsection \<open>\<open>heap_replace_at_index\<close>\<close>

lemma replace_generic:
  assumes "0 < cnt" and "index \<le> cnt" and "index + 1 < 2 ^ 64"
  shows "heap_replace_at_index v index a cnt =
     Inr (a ! index,
       (if lt (lvl index) v (a ! index) then bubble (lvl index) (a[index := v]) index
        else sift_down
               (if has_parent index \<and> lt (lvl index) (a[index := v] ! parent index) v
                then bubble_up (a[index := v]) index else a[index := v])
               index (cnt - 1)))"
  using assms(1,2)
  by (simp add: heap_replace_at_index_def min_level_lvl [OF assms(3)] Let_def
      bubble_up_min_bubble bubble_up_max_bubble lt_def)

text \<open>The state after the store and the optional bubble-up of the second branch.\<close>

lemma replace_up:
  assumes "index \<le> r" and "r < length a" and "index + 1 < 2 ^ 64" and "heap_inv a (Suc r)"
    and "le (lvl index) (a ! index) v"
    and "a2 = (if has_parent index \<and> lt (lvl index) (a[index := v] ! parent index) v
               then bubble_up (a[index := v]) index else a[index := v])"
  shows "heap_ex a2 r index" and "perm_on {..index} (a[index := v]) a2"
proof -
  let ?mn = "lvl index" and ?p = "parent index" and ?a1 = "a[index := v]"
  have len: "index < length a" using assms(1,2) by simp
  have old: "le (lvl i) (a ! i) (a ! j)" if "j \<le> r" "anc i j" for i j
    using assms(4) that by (simp add: heap_inv_def less_Suc_eq_le)
  have but: "heap_but ?a1 r index"
    unfolding heap_but_def using old by simp
  have "heap_ex a2 r index \<and> perm_on {..index} ?a1 a2"
  proof (cases "has_parent index \<and> lt ?mn (?a1 ! ?p) v")
    case True
    with bubble_up_correct [OF assms(3) assms(1) _ but] assms(2) show ?thesis
      by (simp add: assms(6))
  next
    case False
    then have a2: "a2 = ?a1" by (simp only: assms(6) if_False)
    have "heap_ex ?a1 r index"
      unfolding heap_ex_iff
    proof (intro allI impI)
      fix i j assume ij: "j \<le> r" "anc i j" "i \<noteq> index"
      show "le (lvl i) (?a1 ! i) (?a1 ! j)"
      proof (cases "j = index")
        case jx: False
        with old [OF ij(1,2)] ij(3) show ?thesis by simp
      next
        case jx: True
        with ij(2) have ai: "anc i index" by simp
        from anc_pos [OF ai] have pos: "0 < index" .
        show ?thesis
        proof (cases "lvl i = ?mn")
          case True
          from old [OF assms(1) ai] True have "le ?mn (a ! i) (a ! index)" by simp
          from xle_trans [OF this assms(5)] True jx ij(3) len show ?thesis by simp
        next
          case lv: False
          from False pos parent_less [OF pos] have pv: "le ?mn v (a ! ?p)"
            by (simp add: has_parent_def)
          have "le ?mn (a ! ?p) (a ! i)"
          proof (cases "i = ?p")
            case False
            with anc_up [OF ai] have ip: "anc i ?p" by simp
            from parent_less [OF pos] assms(1) have "?p \<le> r" by simp
            from old [OF this ip] lv show ?thesis by simp
          qed simp
          with pv have "le ?mn v (a ! i)" by (rule xle_trans)
          with lv jx ij(3) len show ?thesis by simp
        qed
      qed
    qed
    then show ?thesis by (simp add: a2)
  qed
  then show "heap_ex a2 r index" and "perm_on {..index} ?a1 a2" by simp_all
qed

lemma replace_down:
  assumes "index \<le> r" and "r < length a2" and "r < 2 ^ 64" and "heap_ex a2 r index"
  shows "heap_inv (sift_down a2 index r) (Suc r)"
    and "perm_on {..r} a2 (sift_down a2 index r)"
proof -
  have pre: "\<forall>i \<in> below r index. heap_at a2 r i"
  proof
    fix i assume "i \<in> below r index"
    then have "i \<noteq> index" by auto
    with assms(4) show "heap_at a2 r i" by (simp add: heap_ex_def)
  qed
  note s = sift_down_correct [OF assms(3,2,1) pre]
  have "heap_at (sift_down a2 index r) r i" for i
  proof (cases "i \<in> sub r index")
    case True
    with s(2) show ?thesis by blast
  next
    case False
    with assms(1) have "i \<noteq> index" by (auto simp: sub_def)
    with assms(4) s(3) [OF False] show ?thesis by (simp add: heap_ex_def)
  qed
  then show "heap_inv (sift_down a2 index r) (Suc r)" by (simp add: heap_inv_heap_at)
  show "perm_on {..r} a2 (sift_down a2 index r)" using s(1) sub_upto by (rule perm_on_mono)
qed

lemma replace_bubble:
  assumes "index \<le> r" and "r < length a" and "heap_inv a (Suc r)"
    and "lt (lvl index) v (a ! index)"
  shows "heap_inv (bubble (lvl index) (a[index := v]) index) (Suc r)"
    and "perm_on {..index} (a[index := v]) (bubble (lvl index) (a[index := v]) index)"
proof -
  let ?mn = "lvl index" and ?a1 = "a[index := v]"
  have len: "index < length a" using assms(1,2) by simp
  have old: "le (lvl i) (a ! i) (a ! j)" if "j \<le> r" "anc i j" for i j
    using assms(3) that by (simp add: heap_inv_def less_Suc_eq_le)
  have "swim_inv ?mn ?a1 r (Suc r) index"
    unfolding swim_inv_def
  proof (intro allI impI)
    fix i j
    assume ij: "j \<le> r" "anc i j" "i \<noteq> Suc r" "\<not> (j = index \<and> lvl i = ?mn)"
    consider "i \<noteq> index" "j \<noteq> index" | "i = index" | "j = index" "lvl i \<noteq> ?mn"
      using ij(4) by blast
    then show "le (lvl i) (?a1 ! i) (?a1 ! j)"
    proof cases
      case 1
      with old [OF ij(1,2)] show ?thesis by simp
    next
      case 2
      with ij(2) have "j \<noteq> index" by auto
      moreover from old [OF ij(1,2)] 2 have "le ?mn (a ! index) (a ! j)" by simp
      with xlt_imp_le [OF assms(4)] have "le ?mn v (a ! j)" by (rule xle_trans)
      ultimately show ?thesis using 2 len by simp
    next
      case 3
      with ij(2) have "i \<noteq> index" by auto
      moreover from old [OF ij(1,2)] 3 have "le ?mn (a ! index) (a ! i)" by simp
      with xlt_imp_le [OF assms(4)] have "le ?mn v (a ! i)" by (rule xle_trans)
      ultimately show ?thesis using 3 len by simp
    qed
  qed
  moreover have "\<not> anc (Suc r) index" using assms(1) anc_less [of "Suc r" index] by auto
  moreover have "r < length ?a1" using assms(2) by simp
  ultimately have "heap_ex (bubble ?mn ?a1 index) r (Suc r)"
    and p: "perm_on {..index} ?a1 (bubble ?mn ?a1 index)"
    using bubble_correct [OF refl assms(1), of ?a1 "Suc r"] by simp_all
  then show "heap_inv (bubble ?mn ?a1 index) (Suc r)" by (simp add: heap_inv_ex)
  show "perm_on {..index} ?a1 (bubble ?mn ?a1 index)" by (rule p)
qed

lemma heap_replace_correct:
  assumes "index < cnt" and "cnt \<le> length a" and "cnt < 2 ^ 64" and "heap_inv a cnt"
  shows "\<exists>a'. heap_replace_at_index v index a cnt = Inr (a ! index, a') \<and>
           heap_inv a' cnt \<and> perm_on {..<cnt} (a[index := v]) a'"
proof -
  define r where "r = cnt - 1"
  with assms(1) have cnt: "cnt = Suc r" by simp
  have ir: "index \<le> r" using assms(1) cnt by simp
  have len: "r < length a" using assms(2) cnt by simp
  have r64: "r < 2 ^ 64" using assms(3) cnt by simp
  have "index + 1 \<le> cnt" using assms(1) by simp
  then have i64: "index + 1 < 2 ^ 64" using assms(3) by (rule le_less_trans)
  have inv: "heap_inv a (Suc r)" using assms(4) cnt by simp
  let ?mn = "lvl index" and ?a1 = "a[index := v]"
  note gen = replace_generic [OF _ _ i64, of cnt v a]
  have up: "{..index} \<subseteq> {..<cnt}" "{..r} = {..<cnt}" using assms(1) cnt by auto
  show ?thesis
  proof (cases "lt ?mn v (a ! index)")
    case True
    from replace_bubble [OF ir len inv True] perm_on_mono [OF _ up(1)] gen assms(1) True
    show ?thesis by (simp add: cnt)
  next
    case False
    define a2 where "a2 = (if has_parent index \<and> lt ?mn (?a1 ! parent index) v
               then bubble_up ?a1 index else ?a1)"
    from False have le: "le ?mn (a ! index) v" by simp
    note u = replace_up [OF ir len i64 inv le a2_def]
    have len2: "r < length a2" using perm_on_length [OF u(2)] len by simp
    note d = replace_down [OF ir len2 r64 u(1)]
    have "perm_on {..<cnt} ?a1 a2" using u(2) up(1) by (rule perm_on_mono)
    moreover have "perm_on {..<cnt} a2 (sift_down a2 index r)" using d(2) by (simp add: up(2))
    ultimately have "perm_on {..<cnt} ?a1 (sift_down a2 index r)" by (rule perm_on_trans)
    moreover have "heap_replace_at_index v index a cnt = Inr (a ! index, sift_down a2 index r)"
      using gen assms(1) False by (simp add: a2_def r_def)
    ultimately show ?thesis using d(1) by (simp add: cnt)
  qed
qed

subsection \<open>\<open>heap_remove_at_index\<close>\<close>

text \<open>
  The repair inside \<open>heap_remove_at_index\<close> runs while the last slot still holds the
  value that was copied over the removed one.  A sift-down that starts from a value
  not after the last slot's value, in the order of its level, never moves the last slot.
\<close>

lemma sift_keeps_last:
  assumes "s \<le> r" and "r < length a" and "le mn (a ! s) (a ! r)"
  shows "sift mn a s r ! r = a ! r"
  using assms
proof (induction mn a s r rule: sift.induct)
  case (1 mn a s r)
  show ?case
  proof (cases "left s \<le> r \<and> lt mn (a ! snd (x_cg mn a s r)) (a ! s)")
    case False
    then have "sift mn a s r = a" by (auto simp: sift.simps [of mn a s r] Let_def)
    then show ?thesis by simp
  next
    case True
    define m where "m = snd (x_cg mn a s r)"
    from True have l: "left s \<le> r" and lt: "lt mn (a ! m) (a ! s)" by (simp_all add: m_def)
    have mr: "m \<le> r" unfolding m_def by (rule x_cg_mem(1) [OF l])
    have "m \<noteq> r" using lt "1.prems"(3) xlt_le_False by blast
    with mr have mr': "m < r" by simp
    have sm: "s < m"
      using x_cg_mem(2) [OF l, of mn a] gchildren_above [of m s]
      by (auto simp: m_def child_def left_def right_def)
    from sm mr' "1.prems"(2) have len: "m < length a" "s < length a" by simp_all
    note nth = swap_nth [OF len]
    show ?thesis
    proof (cases "child s m")
      case True
      then have "sift mn a s r = swap a m s"
        using l lt by (simp add: sift.simps [of mn a s r] m_def Let_def)
      with sm mr' show ?thesis by (simp add: nth)
    next
      case False
      define a2 where "a2 = (if lt mn (swap a m s ! parent m) (swap a m s ! m)
               then swap (swap a m s) m (parent m) else swap a m s)"
      have eq: "sift mn a s r = sift mn a2 m r"
        using l lt False by (simp add: sift.simps [of mn a s r] m_def a2_def Let_def)
      have g: "m \<in> set (gchildren s)"
        using x_cg_gchild(1) [OF l, of mn a] False by (simp add: m_def)
      from gchildren_parent [OF g] have p: "s < parent m" "parent m < m" by simp_all
      have len1: "m < length (swap a m s)" "parent m < length (swap a m s)"
        using len p by simp_all
      note nth1 = swap_nth [OF len1]
      have r2: "a2 ! r = a ! r" using p sm mr' by (simp add: a2_def nth nth1)
      have m2: "le mn (a2 ! m) (a ! s)" using p sm by (auto simp: a2_def nth nth1 xlt_imp_le)
      have "le mn (a2 ! m) (a2 ! r)" using m2 "1.prems"(3) r2 xle_trans by metis
      moreover have "r < length a2" using "1.prems"(2) by (simp add: a2_def)
      ultimately have "sift mn a2 m r ! r = a2 ! r"
        using "1.IH" [OF l m_def [symmetric, THEN sym] False lt refl a2_def mr] by simp
      with r2 show ?thesis by (simp add: eq)
    qed
  qed
qed

lemma replace_keeps_last:
  assumes "index < cnt" and "cnt \<le> length a" and "cnt < 2 ^ 64" and "heap_inv a cnt"
    and "heap_replace_at_index (a ! (cnt - 1)) index a cnt = Inr (x, a')"
  shows "a' ! (cnt - 1) = a ! (cnt - 1)"
proof -
  define r where "r = cnt - 1"
  with assms(1) have cnt: "cnt = Suc r" by simp
  have ir: "index \<le> r" using assms(1) cnt by simp
  have len: "r < length a" using assms(2) cnt by simp
  have r64: "r < 2 ^ 64" using assms(3) cnt by simp
  have "index + 1 \<le> cnt" using assms(1) by simp
  then have i64: "index + 1 < 2 ^ 64" using assms(3) by (rule le_less_trans)
  have inv: "heap_inv a (Suc r)" using assms(4) cnt by simp
  let ?mn = "lvl index" and ?v = "a ! r"
  let ?a1 = "a[index := ?v]"
  have li: "index < length a" using ir len by simp
  have a1r: "?a1 ! r = ?v" using li by (simp add: nth_list_update)
  have res: "heap_replace_at_index ?v index a (Suc r) = Inr (x, a')"
    using assms(5) by (simp add: cnt)
  have gen: "heap_replace_at_index ?v index a (Suc r) =
     Inr (a ! index,
       (if lt ?mn ?v (a ! index) then bubble ?mn ?a1 index
        else sift_down
               (if has_parent index \<and> lt ?mn (?a1 ! parent index) ?v
                then bubble_up ?a1 index else ?a1)
               index r))"
    using replace_generic [OF _ _ i64, of "Suc r" ?v a] ir by simp
  have goal: "a' ! r = ?v \<Longrightarrow> ?thesis" by (simp add: cnt)
  show ?thesis
  proof (cases "lt ?mn ?v (a ! index)")
    case True
    then have "index \<noteq> r" by auto
    with ir have "r \<notin> {..index}" by simp
    from perm_on_outside [OF replace_bubble(2) [OF ir len inv True] this] a1r
    have "bubble ?mn ?a1 index ! r = ?v" by simp
    moreover from gen res True have "a' = bubble ?mn ?a1 index" by simp
    ultimately show ?thesis by (intro goal) simp
  next
    case False
    define a2 where "a2 = (if has_parent index \<and> lt ?mn (?a1 ! parent index) ?v
               then bubble_up ?a1 index else ?a1)"
    from False have le: "le ?mn (a ! index) ?v" by simp
    note u = replace_up [OF ir len i64 inv le a2_def]
    have len2: "r < length a2" using perm_on_length [OF u(2)] len by simp
    have a': "a' = sift_down a2 index r"
      using gen res False by (simp add: a2_def)
    have eq: "sift_down a2 index r = sift ?mn a2 index r" using i64 by (rule sift_down_sift)
    have "sift ?mn a2 index r ! r = ?v"
    proof (cases "r \<in> sub r index")
      case out: False
      with ir have "index \<noteq> r" by (auto simp: sub_def)
      with ir have "r \<notin> {..index}" by simp
      from perm_on_outside [OF u(2) this] a1r have "a2 ! r = ?v" by simp
      moreover have pre: "\<forall>i \<in> below r index. heap_at a2 r i"
      proof
        fix i assume "i \<in> below r index"
        then have "i \<noteq> index" by auto
        with u(1) show "heap_at a2 r i" by (simp add: heap_ex_def)
      qed
      from sift_correct [OF refl len2 ir pre] have "perm_on (sub r index) a2 (sift ?mn a2 index r)"
        by simp
      from perm_on_outside [OF this out] have "sift ?mn a2 index r ! r = a2 ! r" .
      ultimately show ?thesis by simp
    next
      case True
      have "\<not> (has_parent index \<and> lt ?mn (?a1 ! parent index) ?v)"
      proof
        assume c: "has_parent index \<and> lt ?mn (?a1 ! parent index) ?v"
        then have pos: "0 < index" by (simp add: has_parent_def)
        let ?p = "parent index"
        have "anc ?p r"
          using True anc_parent [OF pos] anc_trans [of ?p index r] by (auto simp: sub_def)
        with inv have "le (lvl ?p) (a ! ?p) ?v" by (simp add: heap_inv_def)
        with lvl_parent [OF pos] have "le ?mn ?v (a ! ?p)" by simp
        moreover from parent_less [OF pos] have "?a1 ! ?p = a ! ?p" by simp
        ultimately show False using c xlt_le_False by metis
      qed
      then have a2: "a2 = ?a1" by (simp only: a2_def if_False)
      have "index < length a" using ir len by simp
      then have "le ?mn (a2 ! index) (a2 ! r)" by (simp add: a2 nth_list_update)
      from sift_keeps_last [OF ir len2 this] a1r show ?thesis by (simp add: a2)
    qed
    then show ?thesis by (intro goal) (simp add: a' eq)
  qed
qed

lemma heap_remove_at_correct:
  assumes "index < cnt" and "cnt \<le> length a" and "cnt < 2 ^ 64" and "heap_inv a cnt"
  shows "\<exists>a'. heap_remove_at_index index a cnt = Inr (a ! index, a', cnt - 1) \<and>
           heap_inv a' (cnt - 1) \<and> length a' = length a \<and>
           add_mset (a ! index) (mset (take (cnt - 1) a')) = mset (take cnt a) \<and>
           drop cnt a' = drop cnt a"
proof -
  define r where "r = cnt - 1"
  with assms(1) have cnt: "cnt = Suc r" by simp
  have len: "r < length a" "index < length a" using assms(1,2) cnt by simp_all
  let ?v = "a ! r"
  let ?a1 = "a[index := ?v]"
  from heap_replace_correct [OF assms, of ?v] obtain a'
    where a': "heap_replace_at_index ?v index a cnt = Inr (a ! index, a')"
      "heap_inv a' cnt" "perm_on {..<cnt} ?a1 a'" by blast
  from replace_keeps_last [OF assms] a'(1) have last: "a' ! r = ?v" by (simp add: r_def)
  have eq: "heap_remove_at_index index a cnt = Inr (a ! index, a', r)"
    using assms(1) a'(1) by (simp add: heap_remove_at_index_def r_def)
  note t = perm_on_take [OF a'(3) subset_refl]
  have la': "length a' = length a" using perm_on_length [OF a'(3)] by simp
  have "take cnt a' = take r a' @ [?v]"
    using len la' last by (simp add: cnt take_Suc_conv_app_nth)
  then have "mset (take cnt a') = add_mset ?v (mset (take r a'))" by simp
  moreover have "mset (take cnt ?a1) = add_mset ?v (mset (take cnt a) - {#a ! index#})"
    using assms(1,2) by (simp add: take_update_swap mset_update)
  ultimately have "mset (take r a') = mset (take cnt a) - {#a ! index#}"
    using t(1) by simp
  moreover have "a ! index \<in># mset (take cnt a)"
    using assms(1,2) by (auto simp: in_set_conv_nth intro!: exI [of _ index])
  ultimately have "add_mset (a ! index) (mset (take r a')) = mset (take cnt a)" by simp
  moreover have "drop cnt a' = drop cnt a"
  proof -
    have "drop cnt ?a1 = drop cnt a" using assms(1) by simp
    with t(2) show ?thesis by simp
  qed
  moreover have "heap_inv a' r" using a'(2) by (rule heap_inv_mono) (simp add: cnt)
  ultimately show ?thesis using eq la' by (simp add: r_def)
qed

subsection \<open>\<open>heap_remove_max\<close>\<close>

lemma heap_remove_max_alt:
  "0 < cnt \<Longrightarrow> heap_remove_max a cnt =
     (case heap_remove_at_index (max_index a cnt) a cnt of
        Inl e \<Rightarrow> Inl e
      | Inr (x, a', cnt') \<Rightarrow> Inr (a ! max_index a cnt, a', cnt'))"
  by (auto simp: heap_remove_max_def max_index_def Let_def split: sum.splits prod.splits)

lemma heap_remove_max_correct:
  assumes "0 < cnt" and "cnt \<le> length a" and "cnt < 2 ^ 64" and "heap_inv a cnt"
  shows "\<exists>a'. heap_remove_max a cnt = Inr (a ! max_index a cnt, a', cnt - 1) \<and>
           heap_inv a' (cnt - 1) \<and> length a' = length a \<and>
           add_mset (a ! max_index a cnt) (mset (take (cnt - 1) a')) = mset (take cnt a) \<and>
           drop cnt a' = drop cnt a"
proof -
  from heap_remove_at_correct [OF max_index_less [OF assms(1)] assms(2,3,4)]
  obtain a' where a':
    "heap_remove_at_index (max_index a cnt) a cnt = Inr (a ! max_index a cnt, a', cnt - 1)"
    "heap_inv a' (cnt - 1)" "length a' = length a"
    "add_mset (a ! max_index a cnt) (mset (take (cnt - 1) a')) = mset (take cnt a)"
    "drop cnt a' = drop cnt a" by blast
  have "heap_remove_max a cnt = Inr (a ! max_index a cnt, a', cnt - 1)"
    by (simp only: heap_remove_max_alt [OF assms(1)] a'(1)) simp
  with a' show ?thesis by blast
qed

subsection \<open>\<open>heap_insert_circular\<close>\<close>

text \<open>The array that \<open>heap_insert_circular\<close> leaves when it evicts the maximum.\<close>

definition circular_repair :: "'a::linorder \<Rightarrow> 'a list \<Rightarrow> nat \<Rightarrow> 'a list" where
  "circular_repair v a n =
     (let m = max_index a n; a1 = a[m := v]
      in if n > 1 then sift_down (if v < a1 ! 0 then swap a1 0 m else a1) m (n - 1) else a1)"

lemma max_index_code:
  "max_index a n = (if n > 1 then snd (max_child a 0 (n - 1)) else 0)"
  by (auto simp: max_index_def max_child_def Let_def)

lemma heap_insert_circular_full:
  "heap_insert_circular d v a n n =
     (if v < a ! max_index a n then Inr ((True, a ! max_index a n), circular_repair v a n, n)
      else Inr ((True, v), a, n))"
  by (simp add: heap_insert_circular_def circular_repair_def max_index_code Let_def)

lemma circular_repair_correct:
  assumes "0 < n" and "n \<le> length a" and "n < 2 ^ 64" and "heap_inv a n"
  shows "heap_inv (circular_repair v a n) n"
    and "perm_on {..<n} (a[max_index a n := v]) (circular_repair v a n)"
proof -
  define m where "m = max_index a n"
  define a1 where "a1 = a[m := v]"
  have mn: "m < n" unfolding m_def by (rule max_index_less [OF assms(1)])
  have "heap_inv (circular_repair v a n) n \<and> perm_on {..<n} a1 (circular_repair v a n)"
  proof (cases "n > 1")
    case False
    then show ?thesis
      by (simp add: circular_repair_def heap_inv_small m_def a1_def Let_def)
  next
    case True
    define r where "r = n - 1"
    with True have n: "n = Suc r" and r: "0 < r" by simp_all
    have m12: "m = 1 \<or> m = 2" "0 < m" using True by (auto simp: m_def max_index_cases)
    have mr: "m \<le> r" using mn n by simp
    have len: "r < length a" "m < length a" using assms(2) n mr by simp_all
    then have len0: "0 < length a" by (cases a) simp_all
    define a3 where "a3 = (if v < a1 ! 0 then swap a1 0 m else a1)"
    have eq: "circular_repair v a n = sift_down a3 m r"
      using True by (simp add: circular_repair_def Let_def a3_def a1_def m_def r_def)
    have len1: "0 < length a1" "m < length a1" using len len0 by (simp_all add: a1_def)
    note nth1 = swap_nth [OF len1]
    have a10: "a1 ! 0 = a ! 0" using m12(2) by (simp add: a1_def)
    have a1m: "a1 ! m = v" using len by (simp add: a1_def)
    have keep: "a3 ! j = a ! j" if "j \<noteq> 0" "j \<noteq> m" for j
    proof -
      have "a3 ! j = a1 ! j" using that by (simp add: a3_def nth1)
      also have "\<dots> = a ! j" using that by (simp add: a1_def)
      finally show ?thesis .
    qed
    have a30: "a3 ! 0 \<le> a ! 0" "a3 ! 0 \<le> a3 ! m"
      using m12(2) by (auto simp: a3_def nth1 a10 a1m)
    have "heap_ex a3 r m"
      unfolding heap_ex_iff
    proof (intro allI impI)
      fix i j assume ij: "j \<le> r" "anc i j" "i \<noteq> m"
      have j0: "j \<noteq> 0" using anc_pos [OF ij(2)] by simp
      show "le (lvl i) (a3 ! i) (a3 ! j)"
      proof (cases "i = 0")
        case True
        show ?thesis
        proof (cases "j = m")
          case True
          with \<open>i = 0\<close> a30(2) show ?thesis by (simp add: le_def)
        next
          case False
          from heap_inv_root [OF assms(4), of j] ij(1) n have "a ! 0 \<le> a ! j" by simp
          with a30(1) keep [OF j0 False] \<open>i = 0\<close> show ?thesis by (simp add: le_def)
        qed
      next
        case False
        have "j \<noteq> m"
        proof
          assume "j = m"
          with ij(2) anc_up [of i m] m12(1) have "i = 0 \<or> anc i 0"
            by (auto simp: parent_def)
          with False anc_pos [of i 0] show False by auto
        qed
        from keep [OF j0 this] keep [OF False ij(3)] assms(4) ij(1,2) n show ?thesis
          by (simp add: heap_inv_def)
      qed
    qed
    moreover have len3: "r < length a3" using len by (simp add: a3_def a1_def)
    moreover have "r < 2 ^ 64" using assms(3) n by simp
    ultimately have d: "heap_inv (sift_down a3 m r) (Suc r)"
      "perm_on {..r} a3 (sift_down a3 m r)"
      using replace_down [OF mr] by simp_all
    have "perm_on {..r} a1 a3"
      using len1 mr by (auto simp: a3_def intro!: perm_on_swap)
    from perm_on_trans [OF this d(2)] have "perm_on {..r} a1 (sift_down a3 m r)" .
    moreover have "{..r} = {..<n}" using n by auto
    ultimately show ?thesis using d(1) unfolding eq by (simp add: n)
  qed
  then show "heap_inv (circular_repair v a n) n"
    and "perm_on {..<n} (a[max_index a n := v]) (circular_repair v a n)"
    by (simp_all add: a1_def m_def)
qed

lemma take_update_mset:
  assumes "i < n" and "n \<le> length a"
  shows "mset (take n (a[i := v])) = add_mset v (mset (take n a) - {#a ! i#})"
  using assms by (simp add: take_update_swap mset_update)

section \<open>The level test and the lookups\<close>

lemma log_2_exact:
  fixes n :: "64 word"
  assumes "n \<noteq> 0"
  shows "unat (log_2 n) = nat \<lfloor>log 2 (real (unat n))\<rfloor>"
proof -
  from assms have pos: "0 < unat n" by (simp add: unat_gt_0)
  have "unat n < 2 ^ 64" using unsigned_less [of n] by simp
  with flog2_bounds [OF pos] have "2 ^ flog2 (unat n) < (2::nat) ^ 64" by linarith
  then have "flog2 (unat n) < 64"
    by (simp only: power_strict_increasing_iff [of "2::nat"] one_less_numeral_iff semiring_norm)
  then have "unat (word_of_nat (flog2 (unat n)) :: 64 word) = flog2 (unat n)"
    by (intro of_nat_inverse [OF refl]) simp
  then show ?thesis
    by (simp only: log_2_flog2 [OF assms] flog2_log [OF pos])
qed

text \<open>
  Claim C8.  The bit-trick \<open>log_2\<close> is exact on every non-zero 64-bit value: it returns
  \<open>\<lfloor>log\<^sub>2 n\<rfloor>\<close>.  Hence for every index \<open>i\<close> whose successor fits 64 bits, which
  covers every index of an array, \<open>min_level i\<close> holds exactly when \<open>i = 0\<close> or
  \<open>\<lfloor>log\<^sub>2 (i + 1)\<rfloor>\<close> is even.
\<close>

theorem min_level_exact:
  "(n \<noteq> 0 \<longrightarrow> unat (log_2 n) = nat \<lfloor>log 2 (real (unat n))\<rfloor>) \<and>
   (i + 1 < 2 ^ 64 \<longrightarrow> min_level i = (i = 0 \<or> even (nat \<lfloor>log 2 (real (i + 1))\<rfloor>)))"
proof (intro conjI impI)
  assume "n \<noteq> 0"
  then show "unat (log_2 n) = nat \<lfloor>log 2 (real (unat n))\<rfloor>" by (rule log_2_exact)
next
  assume "i + 1 < 2 ^ 64"
  then have "min_level i \<longleftrightarrow> even (flog2 (i + 1))" by (rule min_level_flog2)
  moreover have "flog2 (i + 1) = nat \<lfloor>log 2 (real (i + 1))\<rfloor>"
    by (rule flog2_log [symmetric]) simp
  moreover have "i = 0 \<Longrightarrow> even (flog2 (i + 1))" by (simp add: flog2.simps [of "Suc 0"])
  ultimately show "min_level i = (i = 0 \<or> even (nat \<lfloor>log 2 (real (i + 1))\<rfloor>))"
    by auto
qed

theorem min_level_exact_witness:
  "unat (log_2 4096) = nat \<lfloor>log 2 (real (unat (4096 :: 64 word)))\<rfloor> \<and>
   min_level 6 = (6 = (0::nat) \<or> even (nat \<lfloor>log 2 (real (6 + 1 :: nat))\<rfloor>))"
  using min_level_exact [of 4096 6] by simp

text \<open>
  The scan order of the four lookups.  \<open>first_least a cs r m\<close>: among the candidates
  \<open>cs\<close> that lie inside the range, \<open>m\<close> holds a least value and no candidate of
  smaller index holds an equal one; \<open>first_greatest\<close> likewise for a greatest value.
  The candidates are listed in the order in which the code examines them, which is the
  order of their indices.
\<close>

definition first_least :: "'a::linorder list \<Rightarrow> nat list \<Rightarrow> nat \<Rightarrow> nat \<Rightarrow> bool" where
  "first_least a cs r m =
     (m \<in> set cs \<and> m \<le> r \<and>
      (\<forall>c \<in> set cs. c \<le> r \<longrightarrow> a ! m \<le> a ! c \<and> (a ! c = a ! m \<longrightarrow> m \<le> c)))"

definition first_greatest :: "'a::linorder list \<Rightarrow> nat list \<Rightarrow> nat \<Rightarrow> nat \<Rightarrow> bool" where
  "first_greatest a cs r m =
     (m \<in> set cs \<and> m \<le> r \<and>
      (\<forall>c \<in> set cs. c \<le> r \<longrightarrow> a ! c \<le> a ! m \<and> (a ! c = a ! m \<longrightarrow> m \<le> c)))"

lemma first_least_ext: "first_least a cs r m = first_ext True a cs r m"
  by (simp add: first_least_def first_ext_def le_def)

lemma first_greatest_ext: "first_greatest a cs r m = first_ext False a cs r m"
  by (simp add: first_greatest_def first_ext_def le_def)

text \<open>
  Claim C9, as stated, fails: the claim has the right child examined before the left and
  the first-examined candidate kept on a tie, so that two equal children would yield
  the right child.  With children \<open>2, 2\<close> under the root both lookups return the left
  child.
\<close>

theorem child_tie_counterexample:
  "right 0 \<le> 2 \<and> [1, 2, 2 :: nat] ! left 0 = [1, 2, 2] ! right 0 \<and>
   min_child [1, 2, 2 :: nat] 0 2 \<noteq> (True, right 0) \<and>
   max_child [1, 2, 2 :: nat] 0 2 \<noteq> (True, right 0)"
  by (simp add: min_child_def max_child_def left_def right_def)

text \<open>
  Claim C9, amended.  The lookups compare with strict \<open><\<close> only and examine the left
  child before the right, and the grandchildren in the order \<open>left (left i)\<close>,
  \<open>right (left i)\<close>, \<open>left (right i)\<close>, \<open>right (right i)\<close>; a later candidate replaces
  the current one only when strictly smaller (larger), so among equal extremal candidates
  the first examined is returned.  For a node whose two in-range children hold equal
  values \<open>min_child\<close> and \<open>max_child\<close> return the left child.
\<close>

theorem tie_break_left_first:
  "(left i \<le> r \<longrightarrow>
      fst (min_child a i r) \<and> first_least a [left i, right i] r (snd (min_child a i r)) \<and>
      fst (max_child a i r) \<and> first_greatest a [left i, right i] r (snd (max_child a i r))) \<and>
   (left (left i) \<le> r \<longrightarrow>
      fst (min_gchild a i r) \<and> first_least a (gchildren i) r (snd (min_gchild a i r)) \<and>
      fst (max_gchild a i r) \<and> first_greatest a (gchildren i) r (snd (max_gchild a i r))) \<and>
   (right i \<le> r \<and> a ! left i = a ! right i \<longrightarrow>
      min_child a i r = (True, left i) \<and> max_child a i r = (True, left i))"
proof (intro conjI impI)
  assume l: "left i \<le> r"
  then show "fst (min_child a i r)" "fst (max_child a i r)"
    by (simp_all add: min_child_def max_child_def Let_def)
  from l show "first_least a [left i, right i] r (snd (min_child a i r))"
    unfolding first_least_ext min_child_x by (rule x_child_first)
  from l show "first_greatest a [left i, right i] r (snd (max_child a i r))"
    unfolding first_greatest_ext max_child_x by (rule x_child_first)
next
  assume l: "left (left i) \<le> r"
  then show "fst (min_gchild a i r)" "fst (max_gchild a i r)"
    by (simp_all add: min_gchild_def max_gchild_def Let_def)
  from l show "first_least a (gchildren i) r (snd (min_gchild a i r))"
    unfolding first_least_ext min_gchild_x by (rule x_gchild_first)
  from l show "first_greatest a (gchildren i) r (snd (max_gchild a i r))"
    unfolding first_greatest_ext max_gchild_x by (rule x_gchild_first)
next
  assume "right i \<le> r \<and> a ! left i = a ! right i"
  then show "min_child a i r = (True, left i)" "max_child a i r = (True, left i)"
    by (simp_all add: min_child_def max_child_def Let_def left_def right_def)
qed

theorem tie_break_left_first_witness:
  "fst (min_child [1, 2, 2 :: nat] 0 2) \<and> snd (min_child [1, 2, 2 :: nat] 0 2) = 1 \<and>
   max_child [1, 2, 2 :: nat] 0 2 = (True, left 0) \<and>
   snd (min_gchild [0, 5, 5, 3, 3, 3, 3 :: nat] 0 6) = 3 \<and>
   snd (max_gchild [0, 5, 5, 3, 3, 3, 3 :: nat] 0 6) = 3"
  using tie_break_left_first [of 0 2 "[1, 2, 2 :: nat]"]
    tie_break_left_first [of 0 6 "[0, 5, 5, 3, 3, 3, 3 :: nat]"]
  by (simp add: left_def right_def min_child_def min_gchild_def max_gchild_def)

section \<open>The range check of the two indexed operations\<close>

lemmas level_eval = min_level_def log_2_def tab64_def

lemmas index_eval =
  parent_def has_parent_def left_def right_def gparent_def has_gparent_def child_def

text \<open>
  Claim C4.  The claim asks that every index outside \<open>[0, count)\<close>, and \<open>index = count\<close>
  in particular, be rejected with the array and the count unchanged.  The check in the
  code is \<open>index > count\<close>: with one element in a two-slot array, index \<open>1\<close> is accepted,
  the stale slot is returned as the old value, and the heap is changed (the element
  \<open>5\<close> is replaced by \<open>1\<close>, respectively the count drops to \<open>0\<close>).
\<close>

theorem index_equal_count_accepted:
  "heap_replace_at_index (1::nat) 1 [5, 3] 1 = Inr (3, [1, 5]) \<and>
   heap_remove_at_index 1 [5, 3 :: nat] 1 = Inr (3, [5, 5], 0)"
  by (simp add: heap_replace_at_index_def heap_remove_at_index_def level_eval index_eval
      bubble_up_def swap_def sift_down_def bubble_up_min.simps bubble_up_max.simps
      sift_down_max.simps)

section \<open>Construction, the extremes and the indexed removal\<close>

text \<open>
  Claim C6.  For every array and every size that the array holds (sizes \<open>0\<close> and \<open>1\<close>
  included, whatever the order of the input), \<open>make_heap\<close> runs \<open>sift_down\<close> with
  right index \<open>size - 1\<close> for \<open>current\<close> from \<open>parent (size - 1)\<close> down to \<open>0\<close>, does
  nothing for \<open>size \<le> 1\<close>, and the validator accepts its result; the first \<open>size\<close>
  slots are rearranged and the others untouched.
\<close>

theorem make_heap_is_heap:
  assumes "sz \<le> length a" and "sz < 2 ^ 64"
  shows "is_heap (make_heap a sz) sz \<and>
    make_heap a sz =
      (if sz \<le> 1 then a
       else fold (\<lambda>current h. sift_down h current (sz - 1)) (rev [0..<Suc (parent (sz - 1))]) a) \<and>
    mset (take sz (make_heap a sz)) = mset (take sz a) \<and>
    drop sz (make_heap a sz) = drop sz a"
proof -
  note m = make_heap_correct [OF assms]
  have "is_heap (make_heap a sz) sz" using m(1) by (simp add: is_heap_iff [OF assms(2)])
  moreover have "make_heap a sz =
      (if sz \<le> 1 then a
       else fold (\<lambda>current h. sift_down h current (sz - 1)) (rev [0..<Suc (parent (sz - 1))]) a)"
    by (simp add: make_heap_def make_heap_loop_fold)
  ultimately show ?thesis using perm_on_take [OF m(2) subset_refl] by simp
qed

theorem make_heap_is_heap_witness:
  "is_heap (make_heap [5, 1, 9, 3, 7, 2, 8 :: nat] 7) 7 \<and>
   make_heap [5, 1, 9, 3, 7, 2, 8 :: nat] 7 = [1, 7, 9, 3, 5, 2, 8] \<and>
   is_heap (make_heap [4, 4, 4 :: nat] 3) 3 \<and> is_heap (make_heap [3, 2, 1 :: nat] 3) 3 \<and>
   is_heap (make_heap ([] :: nat list) 0) 0"
proof -
  have "make_heap [5, 1, 9, 3, 7, 2, 8 :: nat] 7 = [1, 7, 9, 3, 5, 2, 8]" by code_simp
  moreover have "is_heap (make_heap [5, 1, 9, 3, 7, 2, 8 :: nat] 7) 7"
    by (rule make_heap_is_heap [THEN conjunct1]) simp_all
  moreover have "is_heap (make_heap [4, 4, 4 :: nat] 3) 3"
    by (rule make_heap_is_heap [THEN conjunct1]) simp_all
  moreover have "is_heap (make_heap [3, 2, 1 :: nat] 3) 3"
    by (rule make_heap_is_heap [THEN conjunct1]) simp_all
  moreover have "is_heap (make_heap ([] :: nat list) 0) 0"
    by (rule make_heap_is_heap [THEN conjunct1]) simp_all
  ultimately show ?thesis by blast
qed

text \<open>
  Claim C2.  With \<open>count = 0\<close> both \<open>heap_min\<close> and \<open>heap_max\<close> fail with the empty-heap
  error.  With \<open>count \<ge> 1\<close>, \<open>heap_max\<close> returns \<open>array[0]\<close> when \<open>count = 1\<close> and
  otherwise the larger of \<open>array[1]\<close> and, when present, \<open>array[2]\<close>; on an array that
  the validator accepts, \<open>heap_min\<close> returns the minimum and \<open>heap_max\<close> the maximum
  of the \<open>count\<close> occupied slots.
\<close>

theorem heap_min_max_correct:
  "heap_min a 0 = Inl Heap_empty \<and> heap_max a 0 = Inl Heap_empty \<and>
   (0 < cnt \<longrightarrow>
      heap_min a cnt = Inr (a ! 0) \<and>
      heap_max a cnt =
        Inr (if cnt = 1 then a ! 0 else if cnt = 2 then a ! 1 else max (a ! 1) (a ! 2))) \<and>
   (0 < cnt \<and> cnt \<le> length a \<and> cnt < 2 ^ 64 \<and> is_heap a cnt \<longrightarrow>
      heap_min a cnt = Inr (Min (set (take cnt a))) \<and>
      heap_max a cnt = Inr (Max (set (take cnt a))))"
proof (intro conjI impI)
  show "heap_min a 0 = Inl Heap_empty" "heap_max a 0 = Inl Heap_empty"
    by (simp_all add: heap_min_def heap_max_def)
next
  assume "0 < cnt"
  then show "heap_min a cnt = Inr (a ! 0)" by (simp add: heap_min_def)
  from \<open>0 < cnt\<close> show "heap_max a cnt =
      Inr (if cnt = 1 then a ! 0 else if cnt = 2 then a ! 1 else max (a ! 1) (a ! 2))"
    by (auto simp: heap_max_index max_index_cases max_def)
next
  assume h: "0 < cnt \<and> cnt \<le> length a \<and> cnt < 2 ^ 64 \<and> is_heap a cnt"
  then have "cnt < 2 ^ 64" "is_heap a cnt" by blast+
  then have inv: "heap_inv a cnt" using is_heap_iff by blast
  from h heap_min_correct [OF _ _ inv] show "heap_min a cnt = Inr (Min (set (take cnt a)))"
    by (simp add: heap_min_def)
  from h heap_max_correct [OF _ _ inv] show "heap_max a cnt = Inr (Max (set (take cnt a)))"
    by (simp add: heap_max_index)
qed

theorem heap_min_max_correct_witness:
  "is_heap [1, 9, 8, 3, 5, 2, 7 :: nat] 7 \<and>
   heap_min [1, 9, 8, 3, 5, 2, 7 :: nat] 7 = Inr 1 \<and>
   heap_max [1, 9, 8, 3, 5, 2, 7 :: nat] 7 = Inr 9 \<and>
   Min (set (take 7 [1, 9, 8, 3, 5, 2, 7 :: nat])) = 1 \<and>
   Max (set (take 7 [1, 9, 8, 3, 5, 2, 7 :: nat])) = 9"
proof -
  have h: "is_heap [1, 9, 8, 3, 5, 2, 7 :: nat] 7" by code_simp
  then show ?thesis
    using heap_min_max_correct [of "[1, 9, 8, 3, 5, 2, 7 :: nat]" 7] by simp
qed

text \<open>
  Claim C7.  On an array that the validator accepts, with \<open>count \<ge> 1\<close> and an index
  inside \<open>[0, count)\<close>, \<open>heap_remove_at_index\<close> returns the value stored at the index,
  decrements the count by one, and leaves in the first \<open>count - 1\<close> slots exactly the
  former occupied elements less one occurrence of the removed value: the copy of the
  last element does not survive as a duplicate.  The validator accepts the result.
\<close>

theorem remove_at_index_exact:
  assumes "index < cnt" and "cnt \<le> length a" and "cnt < 2 ^ 64" and "is_heap a cnt"
  shows "\<exists>a'. heap_remove_at_index index a cnt = Inr (a ! index, a', cnt - 1) \<and>
           mset (take (cnt - 1) a') = mset (take cnt a) - {#a ! index#} \<and>
           is_heap a' (cnt - 1) \<and> length a' = length a"
proof -
  from assms(3,4) have inv: "heap_inv a cnt" by (simp add: is_heap_iff)
  from heap_remove_at_correct [OF assms(1,2,3) inv] obtain a' where a':
    "heap_remove_at_index index a cnt = Inr (a ! index, a', cnt - 1)"
    "heap_inv a' (cnt - 1)" "length a' = length a"
    "add_mset (a ! index) (mset (take (cnt - 1) a')) = mset (take cnt a)" by blast
  have "cnt - 1 < 2 ^ 64" using assms(3) by simp
  with a'(2) have "is_heap a' (cnt - 1)" by (simp add: is_heap_iff)
  moreover from a'(4) have "mset (take (cnt - 1) a') = mset (take cnt a) - {#a ! index#}"
    by (metis add_mset_remove_trivial)
  ultimately show ?thesis using a'(1,3) by blast
qed

theorem remove_at_index_exact_witness:
  "is_heap [1, 9, 8, 3, 5, 2, 7 :: nat] 7 \<and>
   heap_remove_at_index 1 [1, 9, 8, 3, 5, 2, 7 :: nat] 7 = Inr (9, [1, 7, 8, 3, 5, 2, 7], 6) \<and>
   (\<exists>a'. heap_remove_at_index 1 [1, 9, 8, 3, 5, 2, 7 :: nat] 7 = Inr (9, a', 6) \<and>
      mset (take 6 a') = {#1, 8, 3, 5, 2, 7#} \<and> is_heap a' 6)"
proof -
  have h: "is_heap [1, 9, 8, 3, 5, 2, 7 :: nat] 7" by code_simp
  have e: "heap_remove_at_index 1 [1, 9, 8, 3, 5, 2, 7 :: nat] 7 = Inr (9, [1, 7, 8, 3, 5, 2, 7], 6)"
    by code_simp
  from remove_at_index_exact [of 1 7 "[1, 9, 8, 3, 5, 2, 7 :: nat]"] h
  obtain a' where "heap_remove_at_index 1 [1, 9, 8, 3, 5, 2, 7 :: nat] 7 = Inr (9, a', 6)"
    "mset (take 6 a') = {#1, 8, 3, 5, 2, 7#}" "is_heap a' 6"
    by auto
  with h e show ?thesis by blast
qed

section \<open>The bounded insert\<close>

text \<open>
  Claim C5.  On a full heap (\<open>count = max_size\<close>, at least one slot) that the validator
  accepts: an incoming value that is not strictly smaller than the current maximum is
  rejected, the result is \<open>(true, value)\<close> and the array and the count are unchanged;
  an incoming value strictly smaller than the maximum overwrites the maximum's slot, is
  swapped into index \<open>0\<close> when it is smaller than the minimum, and is sifted down from
  the maximum's slot (\<open>circular_repair\<close>), the result is \<open>(true, old maximum)\<close> and the
  count stays \<open>max_size\<close>.  The heap then holds the former elements with the maximum
  replaced by the new value, and the validator accepts it.
\<close>

theorem insert_circular_full:
  assumes "0 < max_size" and "max_size \<le> length a" and "max_size < 2 ^ 64"
    and "is_heap a max_size"
  shows
    "(if v < Max (set (take max_size a)) then
        heap_insert_circular d v a max_size max_size =
          Inr ((True, Max (set (take max_size a))), circular_repair v a max_size, max_size) \<and>
        is_heap (circular_repair v a max_size) max_size \<and>
        mset (take max_size (circular_repair v a max_size)) =
          add_mset v (mset (take max_size a) - {#Max (set (take max_size a))#}) \<and>
        drop max_size (circular_repair v a max_size) = drop max_size a
      else heap_insert_circular d v a max_size max_size = Inr ((True, v), a, max_size))"
proof -
  from assms(3,4) have inv: "heap_inv a max_size" by (simp add: is_heap_iff)
  note mx = heap_max_correct [OF assms(1,2) inv]
  note c = circular_repair_correct [OF assms(1,2,3) inv, of v]
  note t = perm_on_take [OF c(2) subset_refl]
  have "is_heap (circular_repair v a max_size) max_size"
    using c(1) by (simp add: is_heap_iff [OF assms(3)])
  moreover have "mset (take max_size (circular_repair v a max_size)) =
      add_mset v (mset (take max_size a) - {#a ! max_index a max_size#})"
    using t(1) take_update_mset [OF max_index_less [OF assms(1)] assms(2)] by simp
  moreover have "drop max_size (circular_repair v a max_size) = drop max_size a"
    using t(2) max_index_less [OF assms(1), of a] by simp
  ultimately show ?thesis
    by (simp add: heap_insert_circular_full flip: mx)
qed

theorem insert_circular_full_witness:
  "is_heap [1, 9, 8, 3, 5, 2, 7 :: nat] 7 \<and>
   heap_insert_circular 0 0 [1, 9, 8, 3, 5, 2, 7 :: nat] 7 7 =
     Inr ((True, 9), [0, 5, 8, 3, 1, 2, 7], 7) \<and>
   heap_insert_circular 0 10 [1, 9, 8, 3, 5, 2, 7 :: nat] 7 7 =
     Inr ((True, 10), [1, 9, 8, 3, 5, 2, 7], 7) \<and>
   is_heap (circular_repair 0 [1, 9, 8, 3, 5, 2, 7 :: nat] 7) 7"
proof -
  have h: "is_heap [1, 9, 8, 3, 5, 2, 7 :: nat] 7" by code_simp
  have m: "Max (set (take 7 [1, 9, 8, 3, 5, 2, 7 :: nat])) = 9" by simp
  have r: "circular_repair 0 [1, 9, 8, 3, 5, 2, 7 :: nat] 7 = [0, 5, 8, 3, 1, 2, 7]"
    by code_simp
  have l: "(7::nat) \<le> length [1, 9, 8, 3, 5, 2, 7 :: nat]" "(7::nat) < 2 ^ 64" "(0::nat) < 7"
    by simp_all
  from insert_circular_full [OF l(3,1,2) h, of 0 0] insert_circular_full [OF l(3,1,2) h, of 10 0]
  show ?thesis unfolding m r using h by simp
qed

section \<open>Sequences of operations\<close>

text \<open>
  The heap states that a caller can reach with an array of at least \<open>max_size\<close> slots:
  from no elements or from \<open>make_heap\<close> on any contents, by operations that succeed;
  the two indexed operations are called with an index inside \<open>[0, count)\<close>.
\<close>

inductive reachable :: "nat \<Rightarrow> 'a::linorder list \<Rightarrow> nat \<Rightarrow> bool" for max_size :: nat where
  r_empty: "max_size \<le> length a \<Longrightarrow> reachable max_size a 0"
| r_make_heap: "sz \<le> max_size \<Longrightarrow> max_size \<le> length a \<Longrightarrow>
    reachable max_size (make_heap a sz) sz"
| r_insert: "reachable max_size a cnt \<Longrightarrow> heap_insert v a cnt max_size = Inr (a', cnt') \<Longrightarrow>
    reachable max_size a' cnt'"
| r_remove_min: "reachable max_size a cnt \<Longrightarrow> heap_remove_min a cnt = Inr (x, a', cnt') \<Longrightarrow>
    reachable max_size a' cnt'"
| r_remove_max: "reachable max_size a cnt \<Longrightarrow> heap_remove_max a cnt = Inr (x, a', cnt') \<Longrightarrow>
    reachable max_size a' cnt'"
| r_insert_circular: "reachable max_size a cnt \<Longrightarrow>
    heap_insert_circular d v a cnt max_size = Inr (res, a', cnt') \<Longrightarrow>
    reachable max_size a' cnt'"
| r_replace_at_index: "reachable max_size a cnt \<Longrightarrow> index < cnt \<Longrightarrow>
    heap_replace_at_index v index a cnt = Inr (x, a') \<Longrightarrow> reachable max_size a' cnt"
| r_remove_at_index: "reachable max_size a cnt \<Longrightarrow> index < cnt \<Longrightarrow>
    heap_remove_at_index index a cnt = Inr (x, a', cnt') \<Longrightarrow> reachable max_size a' cnt'"

definition state_ok :: "nat \<Rightarrow> 'a::linorder list \<Rightarrow> nat \<Rightarrow> bool" where
  "state_ok max_size a cnt = (cnt \<le> max_size \<and> max_size \<le> length a \<and> heap_inv a cnt)"

lemma insert_ok:
  assumes "max_size < 2 ^ 64" and "state_ok max_size a cnt"
    and "heap_insert v a cnt max_size = Inr (a', cnt')"
  shows "state_ok max_size a' cnt'"
proof -
  from assms(3) have c: "cnt < max_size" by (auto simp: heap_insert_def split: if_splits)
  from heap_insert_correct [OF c _ assms(1), of a v] assms(2,3) c show ?thesis
    by (auto simp: state_ok_def)
qed

lemma remove_min_ok:
  assumes "max_size < 2 ^ 64" and "state_ok max_size a cnt"
    and "heap_remove_min a cnt = Inr (x, a', cnt')"
  shows "state_ok max_size a' cnt'"
proof -
  from assms(3) have c: "0 < cnt" by (auto simp: heap_remove_min_def split: if_splits)
  from assms(1,2) have "cnt \<le> length a" "cnt < 2 ^ 64" "heap_inv a cnt"
    by (auto simp: state_ok_def)
  from heap_remove_min_correct [OF c this] assms(2,3) show ?thesis
    by (auto simp: state_ok_def)
qed

lemma remove_at_ok:
  assumes "max_size < 2 ^ 64" and "state_ok max_size a cnt" and "index < cnt"
    and "heap_remove_at_index index a cnt = Inr (x, a', cnt')"
  shows "state_ok max_size a' cnt'"
proof -
  from assms(1,2) have "cnt \<le> length a" "cnt < 2 ^ 64" "heap_inv a cnt"
    by (auto simp: state_ok_def)
  from heap_remove_at_correct [OF assms(3) this] assms(2,4) show ?thesis
    by (auto simp: state_ok_def)
qed

lemma remove_max_ok:
  assumes "max_size < 2 ^ 64" and "state_ok max_size a cnt"
    and "heap_remove_max a cnt = Inr (x, a', cnt')"
  shows "state_ok max_size a' cnt'"
proof -
  from assms(3) have c: "0 < cnt" by (auto simp: heap_remove_max_def split: if_splits)
  from assms(1,2) have "cnt \<le> length a" "cnt < 2 ^ 64" "heap_inv a cnt"
    by (auto simp: state_ok_def)
  from heap_remove_max_correct [OF c this] assms(2,3) show ?thesis
    by (auto simp: state_ok_def)
qed

lemma replace_ok:
  assumes "max_size < 2 ^ 64" and "state_ok max_size a cnt" and "index < cnt"
    and "heap_replace_at_index v index a cnt = Inr (x, a')"
  shows "state_ok max_size a' cnt"
proof -
  from assms(1,2) have "cnt \<le> length a" "cnt < 2 ^ 64" "heap_inv a cnt"
    by (auto simp: state_ok_def)
  from heap_replace_correct [OF assms(3) this, of v] assms(4)
  have "heap_inv a' cnt" "perm_on {..<cnt} (a[index := v]) a'" by auto
  with perm_on_length [OF this(2)] assms(2) show ?thesis by (simp add: state_ok_def)
qed

lemma insert_circular_ok:
  assumes "max_size < 2 ^ 64" and "state_ok max_size a cnt"
    and "heap_insert_circular d v a cnt max_size = Inr (res, a', cnt')"
  shows "state_ok max_size a' cnt'"
proof (cases "cnt = max_size")
  case False
  with assms(3) obtain "heap_insert v a cnt max_size = Inr (a', cnt')"
    by (auto simp: heap_insert_circular_def split: sum.splits)
  with assms(1,2) show ?thesis by (rule insert_ok)
next
  case True
  show ?thesis
  proof (cases "max_size = 0")
    case z: True
    with True assms(3) have "cnt' = 0" "length a' = length a"
      by (auto simp: heap_insert_circular_def Let_def split: if_splits)
    with z assms(2) show ?thesis by (simp add: state_ok_def heap_inv_small)
  next
    case False
    then have pos: "0 < max_size" by simp
    from assms(2) True have a: "max_size \<le> length a" "heap_inv a max_size"
      by (simp_all add: state_ok_def)
    note c = circular_repair_correct [OF pos a(1) assms(1) a(2), of v]
    from assms(3) True have "cnt' = max_size \<and> (a' = a \<or> a' = circular_repair v a max_size)"
      by (auto simp: heap_insert_circular_full split: if_splits)
    with c(1) perm_on_length [OF c(2)] a show ?thesis by (auto simp: state_ok_def)
  qed
qed

lemma reachable_ok:
  assumes "max_size < 2 ^ 64" and "reachable max_size a cnt"
  shows "state_ok max_size a cnt"
  using assms(2)
proof (induction rule: reachable.induct)
  case (r_empty a)
  then show ?case by (simp add: state_ok_def heap_inv_small)
next
  case (r_make_heap sz a)
  then have "sz \<le> length a" "sz < 2 ^ 64" using assms(1) by simp_all
  from make_heap_correct [OF this] r_make_heap show ?case
    by (simp add: state_ok_def perm_on_length)
qed (blast intro: insert_ok remove_min_ok remove_max_ok insert_circular_ok replace_ok
      remove_at_ok assms(1))+

text \<open>
  Claim C1.  In every state reached from an empty array or from \<open>make_heap\<close> by
  successful calls of \<open>heap_insert\<close>, \<open>heap_remove_min\<close>, \<open>heap_remove_max\<close>,
  \<open>heap_insert_circular\<close>, \<open>heap_replace_at_index\<close> and \<open>heap_remove_at_index\<close> with
  valid arguments, the validator \<open>is_heap\<close> returns true, and the count is within the
  capacity.
\<close>

theorem invariant_preserved:
  assumes "max_size < 2 ^ 64" and "reachable max_size a cnt"
  shows "is_heap a cnt \<and> cnt \<le> max_size"
proof -
  from reachable_ok [OF assms] have "heap_inv a cnt" "cnt \<le> max_size"
    by (simp_all add: state_ok_def)
  moreover from this(2) assms(1) have "cnt < 2 ^ 64" by simp
  ultimately show ?thesis by (simp add: is_heap_iff)
qed

theorem invariant_preserved_witness:
  "reachable 4 [2, 5, 1, 5 :: nat] 1 \<and> is_heap [2, 5, 1, 5 :: nat] 1 \<and>
   reachable 4 [1, 7, 2, 5 :: nat] 4 \<and> is_heap [1, 7, 2, 5 :: nat] 4 \<and>
   reachable 4 (make_heap [5, 1, 9, 3 :: nat] 4) 4 \<and> is_heap (make_heap [5, 1, 9, 3 :: nat] 4) 4"
proof -
  have r0: "reachable 4 [0, 0, 0, 0 :: nat] 0" by (rule r_empty) simp
  have "heap_insert 5 [0, 0, 0, 0 :: nat] 0 4 = Inr ([5, 0, 0, 0], 1)" by code_simp
  note r1 = r_insert [OF r0 this]
  have "heap_insert 1 [5, 0, 0, 0 :: nat] 1 4 = Inr ([1, 5, 0, 0], 2)" by code_simp
  note r2 = r_insert [OF r1 this]
  have "heap_insert 9 [1, 5, 0, 0 :: nat] 2 4 = Inr ([1, 5, 9, 0], 3)" by code_simp
  note r3 = r_insert [OF r2 this]
  have "heap_insert 3 [1, 5, 9, 0 :: nat] 3 4 = Inr ([1, 5, 9, 3], 4)" by code_simp
  note r4 = r_insert [OF r3 this]
  have "heap_insert_circular 0 2 [1, 5, 9, 3 :: nat] 4 4 = Inr ((True, 9), [1, 5, 2, 3], 4)"
    by code_simp
  note r5 = r_insert_circular [OF r4 this]
  have "heap_replace_at_index 7 3 [1, 5, 2, 3 :: nat] 4 = Inr (3, [1, 7, 2, 5])" by code_simp
  have "(3::nat) < 4" by simp
  note r6 = r_replace_at_index [OF r5 this \<open>heap_replace_at_index 7 3 [1, 5, 2, 3 :: nat] 4 = Inr (3, [1, 7, 2, 5])\<close>]
  have "heap_remove_at_index 1 [1, 7, 2, 5 :: nat] 4 = Inr (7, [1, 5, 2, 5], 3)" by code_simp
  have "(1::nat) < 4" by simp
  note r7 = r_remove_at_index [OF r6 this \<open>heap_remove_at_index 1 [1, 7, 2, 5 :: nat] 4 = Inr (7, [1, 5, 2, 5], 3)\<close>]
  have "heap_remove_min [1, 5, 2, 5 :: nat] 3 = Inr (1, [2, 5, 1, 5], 2)" by code_simp
  note r8 = r_remove_min [OF r7 this]
  have "heap_remove_max [2, 5, 1, 5 :: nat] 2 = Inr (5, [2, 5, 1, 5], 1)" by code_simp
  note r9 = r_remove_max [OF r8 this]
  have m: "reachable 4 (make_heap [5, 1, 9, 3 :: nat] 4) 4" by (rule r_make_heap) simp_all
  have b: "(4::nat) < 2 ^ 64" by simp
  from invariant_preserved [OF b r9] invariant_preserved [OF b r6] invariant_preserved [OF b m]
    r9 r6 m
  show ?thesis by blast
qed

section \<open>Sorting through the heap\<close>

text \<open>
  The round trip of the claim: insert the values one after the other, then remove the
  minimum (or the maximum) as many times and collect what is returned.
\<close>

fun insert_all :: "'a::linorder list \<Rightarrow> 'a list \<Rightarrow> nat \<Rightarrow> nat \<Rightarrow> error + 'a list \<times> nat" where
  "insert_all [] a cnt max_size = Inr (a, cnt)"
| "insert_all (v # vs) a cnt max_size =
     (case heap_insert v a cnt max_size of
        Inl e \<Rightarrow> Inl e
      | Inr (a', cnt') \<Rightarrow> insert_all vs a' cnt' max_size)"

fun drain_min :: "nat \<Rightarrow> 'a::linorder list \<Rightarrow> nat \<Rightarrow> error + 'a list" where
  "drain_min 0 a cnt = Inr []"
| "drain_min (Suc k) a cnt =
     (case heap_remove_min a cnt of
        Inl e \<Rightarrow> Inl e
      | Inr (x, a', cnt') \<Rightarrow>
          (case drain_min k a' cnt' of Inl e \<Rightarrow> Inl e | Inr xs \<Rightarrow> Inr (x # xs)))"

fun drain_max :: "nat \<Rightarrow> 'a::linorder list \<Rightarrow> nat \<Rightarrow> error + 'a list" where
  "drain_max 0 a cnt = Inr []"
| "drain_max (Suc k) a cnt =
     (case heap_remove_max a cnt of
        Inl e \<Rightarrow> Inl e
      | Inr (x, a', cnt') \<Rightarrow>
          (case drain_max k a' cnt' of Inl e \<Rightarrow> Inl e | Inr xs \<Rightarrow> Inr (x # xs)))"

lemma insert_all_correct:
  assumes "cnt + length vs \<le> max_size" and "max_size \<le> length a" and "max_size < 2 ^ 64"
    and "heap_inv a cnt"
  shows "\<exists>h. insert_all vs a cnt max_size = Inr (h, cnt + length vs) \<and>
           heap_inv h (cnt + length vs) \<and> length h = length a \<and>
           mset (take (cnt + length vs) h) = mset vs + mset (take cnt a)"
  using assms(1,2,4)
proof (induction vs arbitrary: a cnt)
  case Nil
  then show ?case by simp
next
  case (Cons v vs)
  from Cons.prems(1) have c: "cnt < max_size" by simp
  from heap_insert_correct [OF c Cons.prems(2) assms(3) Cons.prems(3), of v] obtain a' where a':
    "heap_insert v a cnt max_size = Inr (a', Suc cnt)" "heap_inv a' (Suc cnt)"
    "length a' = length a" "mset (take (Suc cnt) a') = add_mset v (mset (take cnt a))"
    by blast
  from Cons.prems(1,2) a'(3) have "Suc cnt + length vs \<le> max_size" "max_size \<le> length a'"
    by simp_all
  from Cons.IH [OF this a'(2)] a' show ?case by auto
qed

lemma drain_min_correct:
  assumes "cnt \<le> length a" and "cnt < 2 ^ 64" and "heap_inv a cnt"
  shows "\<exists>xs. drain_min cnt a cnt = Inr xs \<and> sorted xs \<and> mset xs = mset (take cnt a)"
  using assms
proof (induction cnt arbitrary: a)
  case 0
  then show ?case by simp
next
  case (Suc cnt)
  from heap_remove_min_correct [OF _ Suc.prems] obtain a' where a':
    "heap_remove_min a (Suc cnt) = Inr (a ! 0, a', cnt)" "heap_inv a' cnt" "length a' = length a"
    "add_mset (a ! 0) (mset (take cnt a')) = mset (take (Suc cnt) a)"
    by auto
  from Suc.prems a'(3) have "cnt \<le> length a'" "cnt < 2 ^ 64" by simp_all
  from Suc.IH [OF this a'(2)] obtain xs where xs:
    "drain_min cnt a' cnt = Inr xs" "sorted xs" "mset xs = mset (take cnt a')" by blast
  have min: "a ! 0 = Min (set (take (Suc cnt) a))"
    by (rule heap_min_correct [OF _ Suc.prems(1,3)]) simp
  have "a ! 0 \<le> y" if "y \<in> set xs" for y
  proof -
    from that xs(3) have "y \<in># mset (take cnt a')" by (metis set_mset_mset)
    with a'(4) have "y \<in># mset (take (Suc cnt) a)" by (metis insert_iff set_mset_add_mset_insert)
    then show ?thesis unfolding min by simp
  qed
  with xs(2) have "sorted (a ! 0 # xs)" by simp
  moreover have "mset (a ! 0 # xs) = mset (take (Suc cnt) a)" using xs(3) a'(4) by simp
  ultimately show ?case using a'(1) xs(1) by simp
qed

lemma drain_max_correct:
  assumes "cnt \<le> length a" and "cnt < 2 ^ 64" and "heap_inv a cnt"
  shows "\<exists>xs. drain_max cnt a cnt = Inr xs \<and> sorted (rev xs) \<and> mset xs = mset (take cnt a)"
  using assms
proof (induction cnt arbitrary: a)
  case 0
  then show ?case by simp
next
  case (Suc cnt)
  let ?x = "a ! max_index a (Suc cnt)"
  from heap_remove_max_correct [OF _ Suc.prems] obtain a' where a':
    "heap_remove_max a (Suc cnt) = Inr (?x, a', cnt)" "heap_inv a' cnt" "length a' = length a"
    "add_mset ?x (mset (take cnt a')) = mset (take (Suc cnt) a)"
    by auto
  from Suc.prems a'(3) have "cnt \<le> length a'" "cnt < 2 ^ 64" by simp_all
  from Suc.IH [OF this a'(2)] obtain xs where xs:
    "drain_max cnt a' cnt = Inr xs" "sorted (rev xs)" "mset xs = mset (take cnt a')" by blast
  have max: "?x = Max (set (take (Suc cnt) a))"
    by (rule heap_max_correct [OF _ Suc.prems(1,3)]) simp
  have "y \<le> ?x" if "y \<in> set xs" for y
  proof -
    from that xs(3) have "y \<in># mset (take cnt a')" by (metis set_mset_mset)
    with a'(4) have "y \<in># mset (take (Suc cnt) a)" by (metis insert_iff set_mset_add_mset_insert)
    then show ?thesis unfolding max by simp
  qed
  with xs(2) have "sorted (rev (?x # xs))" by (simp add: sorted_append)
  moreover have "mset (?x # xs) = mset (take (Suc cnt) a)" using xs(3) a'(4) by simp
  ultimately show ?case using a'(1) xs(1) by simp
qed

text \<open>
  Claim C3.  Inserting the \<open>n\<close> values of any sequence into an empty array of capacity
  at least \<open>n\<close> and calling \<open>heap_remove_min\<close> \<open>n\<close> times returns exactly these
  values in non-decreasing order; calling \<open>heap_remove_max\<close> \<open>n\<close> times instead
  returns them in non-increasing order.
\<close>

theorem round_trip_sorted:
  assumes "length vs \<le> max_size" and "max_size \<le> length a" and "max_size < 2 ^ 64"
  shows "\<exists>h. insert_all vs a 0 max_size = Inr (h, length vs) \<and>
           drain_min (length vs) h (length vs) = Inr (sort vs) \<and>
           drain_max (length vs) h (length vs) = Inr (rev (sort vs))"
proof -
  have "heap_inv a 0" by (simp add: heap_inv_small)
  from insert_all_correct [OF _ assms(2,3) this, of vs] assms(1) obtain h where h:
    "insert_all vs a 0 max_size = Inr (h, length vs)" "heap_inv h (length vs)"
    "length h = length a" "mset (take (length vs) h) = mset vs"
    by auto
  from assms h(3) have b: "length vs \<le> length h" "length vs < 2 ^ 64" by simp_all
  from drain_min_correct [OF b h(2)] obtain xs where xs:
    "drain_min (length vs) h (length vs) = Inr xs" "sorted xs" "mset xs = mset vs"
    using h(4) by auto
  from drain_max_correct [OF b h(2)] obtain ys where ys:
    "drain_max (length vs) h (length vs) = Inr ys" "sorted (rev ys)" "mset ys = mset vs"
    using h(4) by auto
  from xs(2,3) have "sort vs = xs" by (intro properties_for_sort) simp_all
  moreover from ys(2,3) have "sort vs = rev ys" by (intro properties_for_sort) simp_all
  then have "rev (sort vs) = ys" by simp
  ultimately show ?thesis using h(1) xs(1) ys(1) by blast
qed

theorem round_trip_sorted_witness:
  "insert_all [3, 1, 2, 1 :: nat] [0, 0, 0, 0, 0] 0 5 = Inr ([1, 3, 2, 1, 0], 4) \<and>
   drain_min 4 [1, 3, 2, 1, 0 :: nat] 4 = Inr [1, 1, 2, 3] \<and>
   drain_max 4 [1, 3, 2, 1, 0 :: nat] 4 = Inr [3, 2, 1, 1]"
proof -
  have i: "insert_all [3, 1, 2, 1 :: nat] [0, 0, 0, 0, 0] 0 5 = Inr ([1, 3, 2, 1, 0], 4)"
    by code_simp
  have s: "sort [3, 1, 2, 1 :: nat] = [1, 1, 2, 3]" by code_simp
  have l: "length [3, 1, 2, 1 :: nat] = 4" by simp
  have b: "length [3, 1, 2, 1 :: nat] \<le> 5" "5 \<le> length [0, 0, 0, 0, 0 :: nat]" "(5::nat) < 2 ^ 64"
    by simp_all
  from round_trip_sorted [OF b] obtain h where h:
    "insert_all [3, 1, 2, 1 :: nat] [0, 0, 0, 0, 0] 0 5 = Inr (h, length [3, 1, 2, 1 :: nat])"
    "drain_min (length [3, 1, 2, 1 :: nat]) h (length [3, 1, 2, 1 :: nat]) = Inr (sort [3, 1, 2, 1])"
    "drain_max (length [3, 1, 2, 1 :: nat]) h (length [3, 1, 2, 1 :: nat]) =
       Inr (rev (sort [3, 1, 2, 1]))"
    by blast
  from h(1) have "h = [1, 3, 2, 1, 0]" unfolding i by simp
  with h(2,3) have "drain_min 4 [1, 3, 2, 1, 0 :: nat] 4 = Inr [1, 1, 2, 3]"
    "drain_max 4 [1, 3, 2, 1, 0 :: nat] 4 = Inr (rev [1, 1, 2, 3])"
    unfolding l s by (simp_all only:)
  with i show ?thesis by (simp only: rev.simps append.simps simp_thms)
qed

section \<open>Termination of the loops\<close>

text \<open>
  The six loops of the source, as loops: a state, the loop condition and the loop body,
  with the flags \<open>sift_more\<close> and \<open>finished\<close> that the source uses to leave them.
  \<open>while_option\<close> yields \<open>None\<close> for a loop that runs forever.
\<close>

type_synonym 'a sift_state = "'a list \<times> nat \<times> bool"

definition sift_down_min_cond :: "nat \<Rightarrow> 'a sift_state \<Rightarrow> bool" where
  "sift_down_min_cond right_index st =
     (case st of (heap_array, sift_index, sift_more) \<Rightarrow> sift_more \<and> left sift_index \<le> right_index)"

definition sift_down_min_body :: "nat \<Rightarrow> 'a::linorder sift_state \<Rightarrow> 'a sift_state" where
  "sift_down_min_body right_index st =
     (case st of (heap_array, sift_index, sift_more) \<Rightarrow>
        let m = snd (min_child_or_gchild heap_array sift_index right_index) in
        if child sift_index m then
          (if heap_array ! m < heap_array ! sift_index
           then (swap heap_array m sift_index, sift_index, False)
           else (heap_array, sift_index, False))
        else
          (if heap_array ! m < heap_array ! sift_index then
             (let a1 = swap heap_array m sift_index;
                  a2 = (if a1 ! parent m < a1 ! m then swap a1 m (parent m) else a1)
              in (a2, m, True))
           else (heap_array, sift_index, False)))"

definition sift_down_max_cond :: "nat \<Rightarrow> 'a sift_state \<Rightarrow> bool" where
  "sift_down_max_cond right_index st =
     (case st of (heap_array, sift_index, sift_more) \<Rightarrow> sift_more \<and> left sift_index \<le> right_index)"

definition sift_down_max_body :: "nat \<Rightarrow> 'a::linorder sift_state \<Rightarrow> 'a sift_state" where
  "sift_down_max_body right_index st =
     (case st of (heap_array, sift_index, sift_more) \<Rightarrow>
        let m = snd (max_child_or_gchild heap_array sift_index right_index) in
        if child sift_index m then
          (if heap_array ! sift_index < heap_array ! m
           then (swap heap_array m sift_index, sift_index, False)
           else (heap_array, sift_index, False))
        else
          (if heap_array ! sift_index < heap_array ! m then
             (let a1 = swap heap_array m sift_index;
                  a2 = (if a1 ! m < a1 ! parent m then swap a1 m (parent m) else a1)
              in (a2, m, True))
           else (heap_array, sift_index, False)))"

definition bubble_up_cond :: "'a sift_state \<Rightarrow> bool" where
  "bubble_up_cond st =
     (case st of (heap_array, bubble_index, finished) \<Rightarrow> \<not> finished \<and> has_gparent bubble_index)"

definition bubble_up_min_body :: "'a::linorder sift_state \<Rightarrow> 'a sift_state" where
  "bubble_up_min_body st =
     (case st of (heap_array, bubble_index, finished) \<Rightarrow>
        if heap_array ! bubble_index < heap_array ! gparent bubble_index
        then (swap heap_array bubble_index (gparent bubble_index), gparent bubble_index, False)
        else (heap_array, bubble_index, True))"

definition bubble_up_max_body :: "'a::linorder sift_state \<Rightarrow> 'a sift_state" where
  "bubble_up_max_body st =
     (case st of (heap_array, bubble_index, finished) \<Rightarrow>
        if heap_array ! gparent bubble_index < heap_array ! bubble_index
        then (swap heap_array bubble_index (gparent bubble_index), gparent bubble_index, False)
        else (heap_array, bubble_index, True))"

text \<open>The \<open>for\<close> loop of \<open>make_heap\<close>; \<open>--current\<close> wraps around at \<open>0\<close>.\<close>

definition make_heap_cond :: "'a sift_state \<Rightarrow> bool" where
  "make_heap_cond st =
     (case st of (heap_array, current, finished) \<Rightarrow> \<not> finished)"

definition make_heap_body :: "nat \<Rightarrow> 'a::linorder sift_state \<Rightarrow> 'a sift_state" where
  "make_heap_body right_index st =
     (case st of (heap_array, current, finished) \<Rightarrow>
        (sift_down heap_array current right_index,
         (if current = 0 then 2 ^ 64 - 1 else current - 1),
         current = 0))"

definition is_heap_cond :: "nat \<times> bool \<Rightarrow> bool" where
  "is_heap_cond st =
     (case st of (i, result) \<Rightarrow> result \<and> has_parent i)"

definition is_heap_body :: "'a::linorder list \<Rightarrow> nat \<Rightarrow> nat \<times> bool \<Rightarrow> nat \<times> bool" where
  "is_heap_body array cnt st =
     (case st of (i, result) \<Rightarrow>
        let sub_root = parent i;
            value = array ! sub_root;
            result1 =
              (if min_level sub_root then
                 (let min_value = min_child_or_gchild array sub_root (cnt - 1)
                  in result \<and> (\<not> fst min_value \<or> value < array ! snd min_value
                                 \<or> value = array ! snd min_value))
               else
                 (let max_value = max_child_or_gchild array sub_root (cnt - 1)
                  in result \<and> (\<not> fst max_value \<or> array ! snd max_value < value
                                 \<or> array ! snd max_value = value)))
        in (i - 1, result1))"

lemma sift_down_min_loop:
  "map_option fst (while_option (sift_down_min_cond r) (sift_down_min_body r) (a, s, True))
     = Some (sift_down_min a s r)"
proof (induction a s r rule: sift_down_min.induct)
  case (1 a s r)
  let ?W = "while_option (sift_down_min_cond r) (sift_down_min_body r)"
  have stop: "?W (a', s', False) = Some (a', s', False)" for a' :: "'a list" and s'
    by (subst while_option_unfold) (simp add: sift_down_min_cond_def)
  show ?case
  proof (cases "left s \<le> r")
    case False
    then have "?W (a, s, True) = Some (a, s, True)"
      by (subst while_option_unfold) (simp add: sift_down_min_cond_def)
    with False show ?thesis by (simp add: sift_down_min.simps [of a s r])
  next
    case l: True
    then have unf: "?W (a, s, True) = ?W (sift_down_min_body r (a, s, True))"
      by (subst while_option_unfold) (simp add: sift_down_min_cond_def)
    define m where "m = snd (min_child_or_gchild a s r)"
    show ?thesis
    proof (cases "\<not> child s m \<and> a ! m < a ! s")
      case False
      then have "sift_down_min_body r (a, s, True) = (sift_down_min a s r, s, False)"
        using l by (auto simp: sift_down_min_body_def sift_down_min.simps [of a s r] m_def Let_def)
      then show ?thesis by (simp add: unf stop)
    next
      case True
      define a2 where "a2 = (if swap a m s ! parent m < swap a m s ! m
          then swap (swap a m s) m (parent m) else swap a m s)"
      from True have "sift_down_min_body r (a, s, True) = (a2, m, True)"
        by (simp add: sift_down_min_body_def m_def a2_def Let_def)
      moreover from True l have "sift_down_min a s r = sift_down_min a2 m r"
        by (simp add: sift_down_min.simps [of a s r] m_def a2_def Let_def)
      moreover from True have "\<not> child s m" "a ! m < a ! s" by simp_all
      note "1.IH" [OF l m_def [symmetric, THEN sym] this refl a2_def]
      ultimately show ?thesis by (simp add: unf)
    qed
  qed
qed


lemma sift_down_max_loop:
  "map_option fst (while_option (sift_down_max_cond r) (sift_down_max_body r) (a, s, True))
     = Some (sift_down_max a s r)"
proof (induction a s r rule: sift_down_max.induct)
  case (1 a s r)
  let ?W = "while_option (sift_down_max_cond r) (sift_down_max_body r)"
  have stop: "?W (a', s', False) = Some (a', s', False)" for a' :: "'a list" and s'
    by (subst while_option_unfold) (simp add: sift_down_max_cond_def)
  show ?case
  proof (cases "left s \<le> r")
    case False
    then have "?W (a, s, True) = Some (a, s, True)"
      by (subst while_option_unfold) (simp add: sift_down_max_cond_def)
    with False show ?thesis by (simp add: sift_down_max.simps [of a s r])
  next
    case l: True
    then have unf: "?W (a, s, True) = ?W (sift_down_max_body r (a, s, True))"
      by (subst while_option_unfold) (simp add: sift_down_max_cond_def)
    define m where "m = snd (max_child_or_gchild a s r)"
    show ?thesis
    proof (cases "\<not> child s m \<and> a ! s < a ! m")
      case False
      then have "sift_down_max_body r (a, s, True) = (sift_down_max a s r, s, False)"
        using l by (auto simp: sift_down_max_body_def sift_down_max.simps [of a s r] m_def Let_def)
      then show ?thesis by (simp add: unf stop)
    next
      case True
      define a2 where "a2 = (if swap a m s ! m < swap a m s ! parent m
          then swap (swap a m s) m (parent m) else swap a m s)"
      from True have "sift_down_max_body r (a, s, True) = (a2, m, True)"
        by (simp add: sift_down_max_body_def m_def a2_def Let_def)
      moreover from True l have "sift_down_max a s r = sift_down_max a2 m r"
        by (simp add: sift_down_max.simps [of a s r] m_def a2_def Let_def)
      moreover from True have "\<not> child s m" "a ! s < a ! m" by simp_all
      note "1.IH" [OF l m_def [symmetric, THEN sym] this refl a2_def]
      ultimately show ?thesis by (simp add: unf)
    qed
  qed
qed


lemma bubble_up_min_loop:
  "map_option fst (while_option bubble_up_cond bubble_up_min_body (a, b, False))
     = Some (bubble_up_min a b)"
proof (induction a b rule: bubble_up_min.induct)
  case (1 a b)
  let ?W = "while_option bubble_up_cond bubble_up_min_body"
  have stop: "?W (a', b', True) = Some (a', b', True)" for a' :: "'a list" and b'
    by (subst while_option_unfold) (simp add: bubble_up_cond_def)
  show ?case
  proof (cases "has_gparent b")
    case False
    then have "?W (a, b, False) = Some (a, b, False)"
      by (subst while_option_unfold) (simp add: bubble_up_cond_def)
    with False show ?thesis by (simp add: bubble_up_min.simps [of a b])
  next
    case g: True
    then have unf: "?W (a, b, False) = ?W (bubble_up_min_body (a, b, False))"
      by (subst while_option_unfold) (simp add: bubble_up_cond_def)
    show ?thesis
    proof (cases "a ! b < a ! gparent b")
      case False
      then have "bubble_up_min_body (a, b, False) = (a, b, True)"
        by (simp add: bubble_up_min_body_def)
      moreover from False g have "bubble_up_min a b = a"
        by (simp add: bubble_up_min.simps [of a b])
      ultimately show ?thesis by (simp add: unf stop)
    next
      case True
      then have "bubble_up_min_body (a, b, False) = (swap a b (gparent b), gparent b, False)"
        by (simp add: bubble_up_min_body_def)
      moreover from True g
      have "bubble_up_min a b = bubble_up_min (swap a b (gparent b)) (gparent b)"
        by (simp add: bubble_up_min.simps [of a b])
      ultimately show ?thesis using "1.IH" [OF g True] by (simp add: unf)
    qed
  qed
qed

lemma bubble_up_max_loop:
  "map_option fst (while_option bubble_up_cond bubble_up_max_body (a, b, False))
     = Some (bubble_up_max a b)"
proof (induction a b rule: bubble_up_max.induct)
  case (1 a b)
  let ?W = "while_option bubble_up_cond bubble_up_max_body"
  have stop: "?W (a', b', True) = Some (a', b', True)" for a' :: "'a list" and b'
    by (subst while_option_unfold) (simp add: bubble_up_cond_def)
  show ?case
  proof (cases "has_gparent b")
    case False
    then have "?W (a, b, False) = Some (a, b, False)"
      by (subst while_option_unfold) (simp add: bubble_up_cond_def)
    with False show ?thesis by (simp add: bubble_up_max.simps [of a b])
  next
    case g: True
    then have unf: "?W (a, b, False) = ?W (bubble_up_max_body (a, b, False))"
      by (subst while_option_unfold) (simp add: bubble_up_cond_def)
    show ?thesis
    proof (cases "a ! gparent b < a ! b")
      case False
      then have "bubble_up_max_body (a, b, False) = (a, b, True)"
        by (simp add: bubble_up_max_body_def)
      moreover from False g have "bubble_up_max a b = a"
        by (simp add: bubble_up_max.simps [of a b])
      ultimately show ?thesis by (simp add: unf stop)
    next
      case True
      then have "bubble_up_max_body (a, b, False) = (swap a b (gparent b), gparent b, False)"
        by (simp add: bubble_up_max_body_def)
      moreover from True g
      have "bubble_up_max a b = bubble_up_max (swap a b (gparent b)) (gparent b)"
        by (simp add: bubble_up_max.simps [of a b])
      ultimately show ?thesis using "1.IH" [OF g True] by (simp add: unf)
    qed
  qed
qed

lemma make_heap_for_loop:
  "map_option fst (while_option make_heap_cond (make_heap_body r) (a, c, False))
     = Some (make_heap_loop a c r)"
proof (induction c arbitrary: a)
  case 0
  have "while_option make_heap_cond (make_heap_body r) (a, 0, False)
      = while_option make_heap_cond (make_heap_body r) (make_heap_body r (a, 0, False))"
    by (subst while_option_unfold) (simp add: make_heap_cond_def)
  also have "make_heap_body r (a, 0, False) = (sift_down a 0 r, 2 ^ 64 - 1, True)"
    by (simp add: make_heap_body_def)
  also have "while_option make_heap_cond (make_heap_body r) (sift_down a 0 r, 2 ^ 64 - 1, True)
      = Some (sift_down a 0 r, 2 ^ 64 - 1, True)"
    by (subst while_option_unfold) (simp add: make_heap_cond_def)
  finally show ?case by simp
next
  case (Suc c)
  have "while_option make_heap_cond (make_heap_body r) (a, Suc c, False)
      = while_option make_heap_cond (make_heap_body r) (make_heap_body r (a, Suc c, False))"
    by (subst while_option_unfold) (simp add: make_heap_cond_def)
  also have "make_heap_body r (a, Suc c, False) = (sift_down a (Suc c) r, c, False)"
    by (simp add: make_heap_body_def)
  finally show ?case using Suc.IH [of "sift_down a (Suc c) r"] by simp
qed

lemma is_heap_while_loop:
  "map_option snd (while_option is_heap_cond (is_heap_body a cnt) (i, res))
     = Some (is_heap_loop a cnt i res)"
proof (induction a cnt i res rule: is_heap_loop.induct)
  case (1 a cnt i res)
  let ?W = "while_option is_heap_cond (is_heap_body a cnt)"
  show ?case
  proof (cases "res \<and> has_parent i")
    case False
    then have "?W (i, res) = Some (i, res)"
      by (subst while_option_unfold) (auto simp: is_heap_cond_def)
    then have w: "map_option snd (?W (i, res)) = Some res"
      by (simp only: option.map snd_conv)
    from False have e: "is_heap_loop a cnt i res = res"
      by (subst is_heap_loop.simps) (auto simp del: is_heap_loop.simps)
    show ?thesis unfolding e by (rule w)
  next
    case True
    then have unf: "?W (i, res) = ?W (is_heap_body a cnt (i, res))"
      by (subst while_option_unfold) (simp add: is_heap_cond_def)
    let ?s = "parent i"
    define res1 where "res1 =
        (if min_level ?s
         then let min_value = min_child_or_gchild a ?s (cnt - 1)
              in res \<and> (\<not> fst min_value \<or> a ! ?s < a ! snd min_value \<or> a ! ?s = a ! snd min_value)
         else let max_value = max_child_or_gchild a ?s (cnt - 1)
              in res \<and> (\<not> fst max_value \<or> a ! snd max_value < a ! ?s \<or> a ! snd max_value = a ! ?s))"
    have b: "is_heap_body a cnt (i, res) = (i - 1, res1)"
      by (simp add: is_heap_body_def Let_def res1_def)
    have step: "is_heap_loop a cnt i res = is_heap_loop a cnt (i - 1) res1"
      using True by (subst is_heap_loop.simps) (simp add: Let_def res1_def)
    have "map_option snd (?W (i - 1, res1)) = Some (is_heap_loop a cnt (i - 1) res1)"
      by (rule "1.IH" [OF True refl refl res1_def])
    then show ?thesis by (simp only: unf b step)
  qed
qed

lemma sift_down_min_variant:
  assumes "sift_down_min_cond r (a, s, True)"
    and "snd (snd (sift_down_min_body r (a, s, True)))"
  shows "s < fst (snd (sift_down_min_body r (a, s, True)))
    \<and> fst (snd (sift_down_min_body r (a, s, True))) \<le> r"
proof -
  from assms(1) have l: "left s \<le> r" by (simp add: sift_down_min_cond_def)
  from assms(2) have c: "\<not> child s (snd (min_child_or_gchild a s r))"
    by (auto simp: sift_down_min_body_def Let_def split: if_splits)
  from assms(2) c min_cg_range [OF l c] show ?thesis
    by (auto simp: sift_down_min_body_def Let_def split: if_splits)
qed

lemma sift_down_max_variant:
  assumes "sift_down_max_cond r (a, s, True)"
    and "snd (snd (sift_down_max_body r (a, s, True)))"
  shows "s < fst (snd (sift_down_max_body r (a, s, True)))
    \<and> fst (snd (sift_down_max_body r (a, s, True))) \<le> r"
proof -
  from assms(1) have l: "left s \<le> r" by (simp add: sift_down_max_cond_def)
  from assms(2) have c: "\<not> child s (snd (max_child_or_gchild a s r))"
    by (auto simp: sift_down_max_body_def Let_def split: if_splits)
  from assms(2) c max_cg_range [OF l c] show ?thesis
    by (auto simp: sift_down_max_body_def Let_def split: if_splits)
qed

lemma bubble_up_min_variant:
  assumes "bubble_up_cond (a, b, False)"
    and "\<not> snd (snd (bubble_up_min_body (a, b, False)))"
  shows "fst (snd (bubble_up_min_body (a, b, False))) < b"
  using assms gparent_less [of b]
  by (auto simp: bubble_up_cond_def bubble_up_min_body_def split: if_splits)

lemma bubble_up_max_variant:
  assumes "bubble_up_cond (a, b, False)"
    and "\<not> snd (snd (bubble_up_max_body (a, b, False)))"
  shows "fst (snd (bubble_up_max_body (a, b, False))) < b"
  using assms gparent_less [of b]
  by (auto simp: bubble_up_cond_def bubble_up_max_body_def split: if_splits)

text \<open>
  Claim C10 (termination).  Each loop of the source, run as a loop from its initial flag,
  stops and leaves the array (for \<open>is_heap\<close>: the verdict) that the recursive
  definition computes, for every array, every index and every right bound; the public
  operations are these loops between straight-line code, so they run to completion too.
  An iteration of a sift loop that asks for another one has moved the sift index to a
  strictly larger index that is still at most \<open>right_index\<close>; an iteration of a bubble
  loop that is not the last one has moved the bubble index to a strictly smaller index.
\<close>

theorem loops_terminate:
  "map_option fst (while_option (sift_down_min_cond r) (sift_down_min_body r) (a, s, True))
     = Some (sift_down_min a s r)
   \<and> map_option fst (while_option (sift_down_max_cond r) (sift_down_max_body r) (a, s, True))
     = Some (sift_down_max a s r)
   \<and> map_option fst (while_option bubble_up_cond bubble_up_min_body (a, b, False))
     = Some (bubble_up_min a b)
   \<and> map_option fst (while_option bubble_up_cond bubble_up_max_body (a, b, False))
     = Some (bubble_up_max a b)
   \<and> map_option fst (while_option make_heap_cond (make_heap_body r) (a, c, False))
     = Some (make_heap_loop a c r)
   \<and> map_option snd (while_option is_heap_cond (is_heap_body a cnt) (i, res))
     = Some (is_heap_loop a cnt i res)
   \<and> (sift_down_min_cond r (a, s, True) \<and> snd (snd (sift_down_min_body r (a, s, True)))
      \<longrightarrow> s < fst (snd (sift_down_min_body r (a, s, True)))
        \<and> fst (snd (sift_down_min_body r (a, s, True))) \<le> r)
   \<and> (sift_down_max_cond r (a, s, True) \<and> snd (snd (sift_down_max_body r (a, s, True)))
      \<longrightarrow> s < fst (snd (sift_down_max_body r (a, s, True)))
        \<and> fst (snd (sift_down_max_body r (a, s, True))) \<le> r)
   \<and> (bubble_up_cond (a, b, False) \<and> \<not> snd (snd (bubble_up_min_body (a, b, False)))
      \<longrightarrow> fst (snd (bubble_up_min_body (a, b, False))) < b)
   \<and> (bubble_up_cond (a, b, False) \<and> \<not> snd (snd (bubble_up_max_body (a, b, False)))
      \<longrightarrow> fst (snd (bubble_up_max_body (a, b, False))) < b)"
  using sift_down_min_loop [of r a s] sift_down_max_loop [of r a s]
    bubble_up_min_loop [of a b] bubble_up_max_loop [of a b]
    make_heap_for_loop [of r a c] is_heap_while_loop [of a cnt i res]
    sift_down_min_variant [of r a s] sift_down_max_variant [of r a s]
    bubble_up_min_variant [of a b] bubble_up_max_variant [of a b]
  by blast

theorem loops_terminate_witness:
  "map_option fst (while_option (sift_down_min_cond 6) (sift_down_min_body 6)
       ([9, 5, 8, 1, 6, 7, 4 :: nat], 0, True)) = Some [1, 9, 8, 5, 6, 7, 4]
   \<and> sift_down_min_cond 6 ([9, 5, 8, 1, 6, 7, 4 :: nat], 0, True)
   \<and> snd (snd (sift_down_min_body 6 ([9, 5, 8, 1, 6, 7, 4 :: nat], 0, True)))
   \<and> 0 < fst (snd (sift_down_min_body 6 ([9, 5, 8, 1, 6, 7, 4 :: nat], 0, True)))
   \<and> fst (snd (sift_down_min_body 6 ([9, 5, 8, 1, 6, 7, 4 :: nat], 0, True))) \<le> 6
   \<and> map_option fst (while_option (sift_down_max_cond 6) (sift_down_max_body 6)
       ([1, 5, 8, 9, 6, 7, 4 :: nat], 0, True)) = Some [9, 1, 8, 5, 6, 7, 4]
   \<and> sift_down_max_cond 6 ([1, 5, 8, 9, 6, 7, 4 :: nat], 0, True)
   \<and> snd (snd (sift_down_max_body 6 ([1, 5, 8, 9, 6, 7, 4 :: nat], 0, True)))
   \<and> 0 < fst (snd (sift_down_max_body 6 ([1, 5, 8, 9, 6, 7, 4 :: nat], 0, True)))
   \<and> fst (snd (sift_down_max_body 6 ([1, 5, 8, 9, 6, 7, 4 :: nat], 0, True))) \<le> 6
   \<and> map_option fst (while_option bubble_up_cond bubble_up_min_body
       ([5, 9, 8, 1 :: nat], 3, False)) = Some [1, 9, 8, 5]
   \<and> bubble_up_cond ([5, 9, 8, 1 :: nat], 3, False)
   \<and> \<not> snd (snd (bubble_up_min_body ([5, 9, 8, 1 :: nat], 3, False)))
   \<and> fst (snd (bubble_up_min_body ([5, 9, 8, 1 :: nat], 3, False))) < 3
   \<and> map_option fst (while_option bubble_up_cond bubble_up_max_body
       ([1, 5, 8, 2, 3, 4, 6, 9 :: nat], 7, False)) = Some [1, 9, 8, 2, 3, 4, 6, 5]
   \<and> bubble_up_cond ([1, 5, 8, 2, 3, 4, 6, 9 :: nat], 7, False)
   \<and> \<not> snd (snd (bubble_up_max_body ([1, 5, 8, 2, 3, 4, 6, 9 :: nat], 7, False)))
   \<and> fst (snd (bubble_up_max_body ([1, 5, 8, 2, 3, 4, 6, 9 :: nat], 7, False))) < 7
   \<and> map_option fst (while_option make_heap_cond (make_heap_body 3)
       ([4, 3, 2, 1 :: nat], 1, False)) = Some [1, 4, 2, 3]
   \<and> map_option snd (while_option is_heap_cond (is_heap_body [1, 4, 3, 2 :: nat] 4)
       (3, True)) = Some True"
proof -
  have e1: "sift_down_min [9, 5, 8, 1, 6, 7, 4 :: nat] 0 6 = [1, 9, 8, 5, 6, 7, 4]"
    by code_simp
  have e2: "sift_down_max [1, 5, 8, 9, 6, 7, 4 :: nat] 0 6 = [9, 1, 8, 5, 6, 7, 4]"
    by code_simp
  have e3: "bubble_up_min [5, 9, 8, 1 :: nat] 3 = [1, 9, 8, 5]"
    by code_simp
  have e4: "bubble_up_max [1, 5, 8, 2, 3, 4, 6, 9 :: nat] 7 = [1, 9, 8, 2, 3, 4, 6, 5]"
    by code_simp
  have e5: "make_heap_loop [4, 3, 2, 1 :: nat] 1 3 = [1, 4, 2, 3]"
    by code_simp
  have e6: "is_heap_loop [1, 4, 3, 2 :: nat] 4 3 True = True"
    by code_simp
  note t1 = loops_terminate [where r = 6 and a = "[9, 5, 8, 1, 6, 7, 4 :: nat]" and s = 0]
  note t2 = loops_terminate [where r = 6 and a = "[1, 5, 8, 9, 6, 7, 4 :: nat]" and s = 0]
  note t3 = loops_terminate [where a = "[5, 9, 8, 1 :: nat]" and b = 3]
  note t4 = loops_terminate [where a = "[1, 5, 8, 2, 3, 4, 6, 9 :: nat]" and b = 7]
  note t5 = loops_terminate [where a = "[4, 3, 2, 1 :: nat]" and c = 1 and r = 3]
  note t6 = loops_terminate [where a = "[1, 4, 3, 2 :: nat]" and cnt = 4 and i = 3
      and res = True]
  have w1: "map_option fst (while_option (sift_down_min_cond 6) (sift_down_min_body 6)
       ([9, 5, 8, 1, 6, 7, 4 :: nat], 0, True)) = Some [1, 9, 8, 5, 6, 7, 4]"
    using t1 [THEN conjunct1] unfolding e1 .
  have c1: "sift_down_min_cond 6 ([9, 5, 8, 1, 6, 7, 4 :: nat], 0, True)"
    by code_simp
  have f1: "snd (snd (sift_down_min_body 6 ([9, 5, 8, 1, 6, 7, 4 :: nat], 0, True)))"
    by code_simp
  have v1: "0 < fst (snd (sift_down_min_body 6 ([9, 5, 8, 1, 6, 7, 4 :: nat], 0, True)))"
    and u1: "fst (snd (sift_down_min_body 6 ([9, 5, 8, 1, 6, 7, 4 :: nat], 0, True))) \<le> 6"
    using t1 c1 f1 by blast+
  have w2: "map_option fst (while_option (sift_down_max_cond 6) (sift_down_max_body 6)
       ([1, 5, 8, 9, 6, 7, 4 :: nat], 0, True)) = Some [9, 1, 8, 5, 6, 7, 4]"
    using t2 [THEN conjunct2, THEN conjunct1] unfolding e2 .
  have c2: "sift_down_max_cond 6 ([1, 5, 8, 9, 6, 7, 4 :: nat], 0, True)"
    by code_simp
  have f2: "snd (snd (sift_down_max_body 6 ([1, 5, 8, 9, 6, 7, 4 :: nat], 0, True)))"
    by code_simp
  have v2: "0 < fst (snd (sift_down_max_body 6 ([1, 5, 8, 9, 6, 7, 4 :: nat], 0, True)))"
    and u2: "fst (snd (sift_down_max_body 6 ([1, 5, 8, 9, 6, 7, 4 :: nat], 0, True))) \<le> 6"
    using t2 c2 f2 by blast+
  have w3: "map_option fst (while_option bubble_up_cond bubble_up_min_body
       ([5, 9, 8, 1 :: nat], 3, False)) = Some [1, 9, 8, 5]"
    using t3 [THEN conjunct2, THEN conjunct2, THEN conjunct1] unfolding e3 .
  have c3: "bubble_up_cond ([5, 9, 8, 1 :: nat], 3, False)"
    by code_simp
  have f3: "\<not> snd (snd (bubble_up_min_body ([5, 9, 8, 1 :: nat], 3, False)))"
    by code_simp
  have v3: "fst (snd (bubble_up_min_body ([5, 9, 8, 1 :: nat], 3, False))) < 3"
    using t3 c3 f3 by blast
  have w4: "map_option fst (while_option bubble_up_cond bubble_up_max_body
       ([1, 5, 8, 2, 3, 4, 6, 9 :: nat], 7, False)) = Some [1, 9, 8, 2, 3, 4, 6, 5]"
    using t4 [THEN conjunct2, THEN conjunct2, THEN conjunct2, THEN conjunct1] unfolding e4 .
  have c4: "bubble_up_cond ([1, 5, 8, 2, 3, 4, 6, 9 :: nat], 7, False)"
    by code_simp
  have f4: "\<not> snd (snd (bubble_up_max_body ([1, 5, 8, 2, 3, 4, 6, 9 :: nat], 7, False)))"
    by code_simp
  have v4: "fst (snd (bubble_up_max_body ([1, 5, 8, 2, 3, 4, 6, 9 :: nat], 7, False))) < 7"
    using t4 c4 f4 by blast
  have w5: "map_option fst (while_option make_heap_cond (make_heap_body 3)
       ([4, 3, 2, 1 :: nat], 1, False)) = Some [1, 4, 2, 3]"
    using t5 [THEN conjunct2, THEN conjunct2, THEN conjunct2, THEN conjunct2, THEN conjunct1] unfolding e5 .
  have w6: "map_option snd (while_option is_heap_cond (is_heap_body [1, 4, 3, 2 :: nat] 4)
       (3, True)) = Some True"
    using t6 [THEN conjunct2, THEN conjunct2, THEN conjunct2, THEN conjunct2, THEN conjunct2, THEN conjunct1] unfolding e6 .
  show ?thesis
    by (intro conjI w1 c1 f1 v1 u1 w2 c2 f2 v2 u2 w3 c3 f3 v3 w4 c4 f4 v4 w5 w6)
qed

end
